theory Spec2Isabelle
  imports Complex_Main
begin

section \<open>JavaScript values\<close>

text \<open>
  The trees handled by \<^verbatim>\<open>src/providers/database.ts\<close> are JSON values typed \<^verbatim>\<open>any\<close>.
  A plain object is an association list in the object's own key order, an array is a list
  whose holes are \<open>None\<close>, and \<open>JUndefined\<close> is the value \<^verbatim>\<open>undefined\<close>.
  Numbers are rationals: the code inspects a number only when lodash tests whether a
  \<^verbatim>\<open>length\<close> property is a valid array length, everywhere else numbers are passed
  through untouched. Strings are lists of code units.
\<close>

datatype json =
    JUndefined
  | JNull
  | JBool bool
  | JNum rat
  | JStr string
  | JObj "(string \<times> json) list"
  | JArr "json option list"

subsection \<open>Integer keys\<close>

definition isDigit :: "char \<Rightarrow> bool" where
  "isDigit c = (c \<in> set ''0123456789'')"

text \<open>The regular expression \<^verbatim>\<open>/^(0|[1-9]\d*)$/\<close> of \<^verbatim>\<open>_checkAndConvertToArray\<close>.\<close>

definition integerRegExp :: "string \<Rightarrow> bool" where
  "integerRegExp key =
     (key = ''0'' \<or>
      (case key of [] \<Rightarrow> False | c # cs \<Rightarrow> isDigit c \<and> c \<noteq> CHR ''0'' \<and> list_all isDigit cs))"

definition digitVal :: "char \<Rightarrow> nat" where
  "digitVal c = of_char c - 48"

text \<open>
  \<^verbatim>\<open>Number(key)\<close> on a key that passed \<open>integerRegExp\<close>: its decimal value. (JavaScript
  rounds values above \<open>2^53\<close> to a double; the result is only ever compared with twice the
  number of keys of one object.)
\<close>

definition Number :: "string \<Rightarrow> nat" where
  "Number key = foldl (\<lambda>acc c. 10 * acc + digitVal c) 0 key"

definition digitChar :: "nat \<Rightarrow> char" where
  "digitChar d = ''0123456789'' ! d"

text \<open>The property key of an array index: \<^verbatim>\<open>String(index)\<close>, in decimal.\<close>

fun indexKey :: "nat \<Rightarrow> string" where
  "indexKey n = (if n < 10 then [digitChar n] else indexKey (n div 10) @ [digitChar (n mod 10)])"

declare indexKey.simps [simp del]

text \<open>A key is an array index when it is a canonical decimal below \<open>2^32 - 1\<close>.\<close>

definition isArrayIndex :: "string \<Rightarrow> bool" where
  "isArrayIndex key = (integerRegExp key \<and> int (Number key) < 4294967295)"

subsection \<open>Property writes and reads\<close>

text \<open>
  \<^verbatim>\<open>obj[key] = v\<close> on a plain object. An existing property keeps its place. A new
  property is placed in the order JavaScript enumerates own keys: array indices first, in
  ascending numeric order, then the other keys in insertion order. (The key
  \<^verbatim>\<open>__proto__\<close>, which an assignment treats as the prototype slot, is not modelled.)
\<close>

fun obj_insert :: "(string \<times> json) list \<Rightarrow> string \<Rightarrow> json \<Rightarrow> (string \<times> json) list" where
  "obj_insert [] key v = [(key, v)]"
| "obj_insert ((k, x) # ps) key v =
     (if isArrayIndex key \<and> (if isArrayIndex k then Number key < Number k else True)
      then (key, v) # (k, x) # ps
      else (k, x) # obj_insert ps key v)"

definition obj_set :: "(string \<times> json) list \<Rightarrow> string \<Rightarrow> json \<Rightarrow> (string \<times> json) list" where
  "obj_set ob key v =
     (if key \<in> fst ` set ob
      then map (\<lambda>(k, x). if k = key then (k, v) else (k, x)) ob
      else obj_insert ob key v)"

text \<open>
  \<^verbatim>\<open>array[i] = v\<close>: writing past the end extends the array and leaves holes in between.
\<close>

definition arr_set :: "json option list \<Rightarrow> nat \<Rightarrow> json \<Rightarrow> json option list" where
  "arr_set arr i v =
     (if i < length arr then arr[i := Some v]
      else arr @ replicate (i - length arr) None @ [Some v])"

text \<open>Reading a hole, or past the end, gives \<^verbatim>\<open>undefined\<close>.\<close>

definition arr_get :: "json option list \<Rightarrow> nat \<Rightarrow> json" where
  "arr_get arr i =
     (if i < length arr then (case arr ! i of None \<Rightarrow> JUndefined | Some v \<Rightarrow> v) else JUndefined)"

text \<open>
  The property read \<^verbatim>\<open>value[key]\<close> on a value that is neither \<^verbatim>\<open>null\<close> nor
  \<^verbatim>\<open>undefined\<close>, for the properties that belong to the data itself: the own keys of an
  object, the elements and the \<^verbatim>\<open>length\<close> of an array, the characters and the
  \<^verbatim>\<open>length\<close> of a string. Properties inherited from a prototype (methods such as
  \<^verbatim>\<open>toString\<close>) are functions, not JSON values, and are not part of this model.
\<close>

definition js_prop :: "json \<Rightarrow> string \<Rightarrow> json" where
  "js_prop v key =
     (case v of
        JObj kvs \<Rightarrow> (case map_of kvs key of None \<Rightarrow> JUndefined | Some x \<Rightarrow> x)
      | JArr xs \<Rightarrow>
          (if key = ''length'' then JNum (of_nat (length xs))
           else if isArrayIndex key then arr_get xs (Number key)
           else JUndefined)
      | JStr s \<Rightarrow>
          (if key = ''length'' then JNum (of_nat (length s))
           else if isArrayIndex key \<and> Number key < length s then JStr [s ! Number key]
           else JUndefined)
      | _ \<Rightarrow> JUndefined)"

subsection \<open>The lodash functions the class calls\<close>

text \<open>\<^verbatim>\<open>typeof v === 'object'\<close> for a value that is not \<^verbatim>\<open>null\<close>.\<close>

definition isObject :: "json \<Rightarrow> bool" where
  "isObject v = (case v of JObj _ \<Rightarrow> True | JArr _ \<Rightarrow> True | _ \<Rightarrow> False)"

text \<open>lodash \<^verbatim>\<open>isLength\<close>: a non-negative integer up to \<open>2^53 - 1\<close>.\<close>

definition isLength :: "json \<Rightarrow> bool" where
  "isLength v =
     (case v of
        JNum n \<Rightarrow> 0 \<le> n \<and> n = of_int \<lfloor>n\<rfloor> \<and> n \<le> 9007199254740991
      | _ \<Rightarrow> False)"

text \<open>
  lodash \<^verbatim>\<open>isArrayLike\<close>: the value is not nullish and its \<^verbatim>\<open>length\<close> property is a
  valid length. It holds for every array, and for every plain object that has an own key
  \<^verbatim>\<open>length\<close> with such a number.
\<close>

definition isArrayLike :: "json \<Rightarrow> bool" where
  "isArrayLike v = (v \<noteq> JNull \<and> v \<noteq> JUndefined \<and> isLength (js_prop v ''length''))"

definition lengthOf :: "json \<Rightarrow> nat" where
  "lengthOf v = (case js_prop v ''length'' of JNum n \<Rightarrow> nat \<lfloor>n\<rfloor> | _ \<Rightarrow> 0)"

text \<open>
  The pairs \<^verbatim>\<open>(key, value)\<close> that \<^verbatim>\<open>_.forEach(collection, iteratee)\<close> hands to its
  iteratee, in order. As the lodash documentation notes, a collection with a
  \<^verbatim>\<open>length\<close> property is iterated like an array: lodash visits the indices
  \<open>0 ..< length\<close> and reads \<^verbatim>\<open>collection[index]\<close>; only a collection that is not
  array-like is iterated over its own keys. (The iteratee of
  \<^verbatim>\<open>_checkAndConvertToArray\<close> returns nothing, so the iteration never stops early.)
\<close>

definition forEach_entries :: "json \<Rightarrow> (string \<times> json) list" where
  "forEach_entries collection =
     (if collection = JNull \<or> collection = JUndefined then []
      else if isArrayLike collection
      then map (\<lambda>index. (indexKey index, js_prop collection (indexKey index)))
             [0 ..< lengthOf collection]
      else (case collection of JObj kvs \<Rightarrow> kvs | _ \<Rightarrow> []))"

text \<open>
  lodash \<^verbatim>\<open>baseGet(object, path)\<close> reads one property per path element while the
  current value is not nullish, and returns the value it reached only if it consumed a
  non-empty path entirely, \<^verbatim>\<open>undefined\<close> otherwise.
  \<^verbatim>\<open>_.get(object, path, defaultValue)\<close> replaces an \<^verbatim>\<open>undefined\<close> result by the
  default.
\<close>

fun baseGet_walk :: "json \<Rightarrow> string list \<Rightarrow> json" where
  "baseGet_walk object [] = object"
| "baseGet_walk object (k # path) =
     (if object = JNull \<or> object = JUndefined then JUndefined
      else baseGet_walk (js_prop object k) path)"

definition baseGet :: "json \<Rightarrow> string list \<Rightarrow> json" where
  "baseGet object path = (if path = [] then JUndefined else baseGet_walk object path)"

definition lodash_get :: "json \<Rightarrow> string list \<Rightarrow> json \<Rightarrow> json" where
  "lodash_get object path defaultValue =
     (let result = (if object = JNull \<or> object = JUndefined then JUndefined
                    else baseGet object path)
      in if result = JUndefined then defaultValue else result)"

text \<open>
  \<^verbatim>\<open>_.cloneDeep\<close> returns a structurally equal copy. Values are immutable here, so the
  copy is the value.
\<close>

definition cloneDeep :: "json \<Rightarrow> json" where
  "cloneDeep v = v"

definition isPlainObject :: "json \<Rightarrow> bool" where
  "isPlainObject v = (case v of JObj _ \<Rightarrow> True | _ \<Rightarrow> False)"

text \<open>\<^verbatim>\<open>_.keys\<close> and \<^verbatim>\<open>Object.keys\<close> on a plain object: its own keys, in order.\<close>

definition keys :: "json \<Rightarrow> string list" where
  "keys v = (case v of JObj kvs \<Rightarrow> map fst kvs | _ \<Rightarrow> [])"

section \<open>The array-inference normalizer\<close>

lemma size_map_of:
  "map_of kvs k = Some v \<Longrightarrow> size v < Suc (size_list (size_prod (\<lambda>x. 0) size) kvs)"
  by (induction kvs) (auto split: if_splits)

lemma size_nth_opt:
  "i < length xs \<Longrightarrow> xs ! i = Some v \<Longrightarrow> size v < Suc (size_list (size_option size) xs)"
proof (induction xs arbitrary: i)
  case Nil
  then show ?case by simp
next
  case (Cons x xs)
  then show ?case by (cases i) (auto, fastforce)
qed

lemma size_arr_get: "size (arr_get xs i) < Suc (size_list (size_option size) xs)"
proof (cases "i < length xs")
  case True
  then show ?thesis
    using size_nth_opt [of i xs] by (cases "xs ! i") (simp_all add: arr_get_def)
next
  case False
  then show ?thesis by (simp add: arr_get_def)
qed

lemma size_js_prop: "isObject node \<Longrightarrow> size (js_prop node k) < size node"
proof (cases node)
  case (JObj kvs)
  then show ?thesis
    using size_map_of [of kvs k] by (cases "map_of kvs k") (simp_all add: js_prop_def)
next
  case (JArr xs)
  then show ?thesis
    using size_arr_get [of xs "Number k"] by (simp add: js_prop_def)
qed (simp_all add: isObject_def)

lemma size_in_obj:
  "(k, v) \<in> set kvs \<Longrightarrow> size v < Suc (size_list (size_prod (\<lambda>x. 0) size) kvs)"
  by (induction kvs) auto

lemma size_forEach_entries:
  assumes "isObject node" and "(k, child) \<in> set (forEach_entries node)"
  shows "size child < size node"
proof (cases "isArrayLike node")
  case True
  from assms(1) have nn: "node \<noteq> JNull" "node \<noteq> JUndefined"
    by (auto simp: isObject_def)
  have "forEach_entries node =
      map (\<lambda>index. (indexKey index, js_prop node (indexKey index))) [0 ..< lengthOf node]"
    using True nn by (simp add: forEach_entries_def)
  with assms(2) obtain i where "child = js_prop node (indexKey i)"
    by (auto simp del: set_upt)
  then show ?thesis using size_js_prop [OF assms(1)] by simp
next
  case False
  from assms(1) have nn: "node \<noteq> JNull" "node \<noteq> JUndefined"
    by (auto simp: isObject_def)
  have fe: "forEach_entries node = (case node of JObj kvs \<Rightarrow> kvs | _ \<Rightarrow> [])"
    using False nn by (simp add: forEach_entries_def)
  from assms(2) obtain kvs where "node = JObj kvs" "(k, child) \<in> set kvs"
    unfolding fe by (cases node) simp_all
  then show ?thesis using size_in_obj [of k child kvs] by simp
qed

text \<open>The local variables of \<^verbatim>\<open>_checkAndConvertToArray\<close> that its loop updates.\<close>

record loopState =
  obj :: "(string \<times> json) list"
  numKeys :: nat
  maxKey :: nat
  allIntegerKeys :: bool

text \<open>
  One round of the loop body, for the key and the already converted child:
  \<^verbatim>\<open>obj[key] = ...; numKeys++; if (allIntegerKeys && integerRegExp.test(key)) maxKey = Math.max(maxKey, Number(key)); else allIntegerKeys = false;\<close>
\<close>

definition iteratee :: "loopState \<Rightarrow> string \<Rightarrow> json \<Rightarrow> loopState" where
  "iteratee st key converted =
     \<lparr>obj = obj_set (obj st) key converted,
      numKeys = numKeys st + 1,
      maxKey = (if allIntegerKeys st \<and> integerRegExp key then max (maxKey st) (Number key)
                else maxKey st),
      allIntegerKeys = (allIntegerKeys st \<and> integerRegExp key)\<rparr>"

text \<open>
  \<^verbatim>\<open>let array = []; _.forOwn(obj, (val, key) => { array[key] = val; });\<close> This runs only
  when every key of \<open>obj\<close> matched \<open>integerRegExp\<close> and the largest is below twice the
  number of keys. (A key of \<open>2^32 - 1\<close> or more would become a named property of the array
  instead of an element; that takes an object of more than \<open>2^31\<close> keys.)
\<close>

definition toArray :: "(string \<times> json) list \<Rightarrow> json option list" where
  "toArray ob = foldl (\<lambda>array (key, val). arr_set array (Number key) val) [] ob"

definition finish :: "loopState \<Rightarrow> json" where
  "finish st =
     (if allIntegerKeys st \<and> maxKey st < 2 * numKeys st then JArr (toArray (obj st))
      else JObj (obj st))"

function checkAndConvertToArray :: "json \<Rightarrow> json" where
  "checkAndConvertToArray node =
     (if node = JNull \<or> node = JUndefined then JNull
      else if \<not> isObject node then node
      else finish
             (foldl (\<lambda>st entry. iteratee st (fst entry) (checkAndConvertToArray (snd entry)))
                \<lparr>obj = [], numKeys = 0, maxKey = 0, allIntegerKeys = True\<rparr>
                (forEach_entries node)))"
  by pat_completeness auto
termination
proof (relation "measure size")
  show "wf (measure size)" by simp
next
  fix node :: json and st :: loopState and entry :: "string \<times> json"
  assume "\<not> (node = JNull \<or> node = JUndefined)" "\<not> \<not> isObject node"
    "entry \<in> set (forEach_entries node)"
  then have "size (snd entry) < size node"
    using size_forEach_entries [of node "fst entry" "snd entry"] by simp
  then show "(snd entry, node) \<in> measure size" by simp
qed

declare checkAndConvertToArray.simps [simp del]

subsection \<open>Notions used to state what the normalizer returns\<close>

text \<open>A positive decimal numeral: digits, the first of them not zero.\<close>

definition posDecimal :: "string \<Rightarrow> bool" where
  "posDecimal k = (k \<noteq> [] \<and> hd k \<noteq> CHR ''0'' \<and> list_all isDigit k)"

text \<open>
  The order in which a JavaScript object lists its own keys: no array index follows a key
  that is not one, and array indices ascend. \<open>maxNumber\<close> is the largest numeric value
  among keys (0 for none).
\<close>

fun jsOrdered :: "string list \<Rightarrow> bool" where
  "jsOrdered [] = True"
| "jsOrdered [k] = True"
| "jsOrdered (k1 # k2 # ks) =
     ((if isArrayIndex k2 then isArrayIndex k1 \<and> Number k1 < Number k2 else True) \<and>
      jsOrdered (k2 # ks))"

definition maxNumber :: "string list \<Rightarrow> nat" where
  "maxNumber ks = foldl max 0 (map Number ks)"

text \<open>An array read at a position: the element, or nothing for a hole or past the end.\<close>

definition slot :: "json option list \<Rightarrow> nat \<Rightarrow> json option" where
  "slot a j = (if j < length a then a ! j else None)"

section \<open>The resource string\<close>

text \<open>
  The constructor runs
  \<^verbatim>\<open>event.resource.match(new RegExp('projects/([^/]+)/instances/([^/]+)/refs(/.+)?'))\<close>.
  The expression has no anchors, so \<^verbatim>\<open>match\<close> tries every start position from the left
  and returns the first success. At one start position there is at most one way to match:
  a group \<^verbatim>\<open>[^/]+\<close> followed by a slash can only end at the next slash. The last group is
  optional and greedy: a slash followed by at least one character other than a line
  terminator, as far as such characters reach; otherwise the group is \<^verbatim>\<open>undefined\<close>.
  (Of the line terminators, line feed and carriage return are code units below 256.)
\<close>

fun stripPrefix :: "string \<Rightarrow> string \<Rightarrow> string option" where
  "stripPrefix [] s = Some s"
| "stripPrefix (p # ps) [] = None"
| "stripPrefix (p # ps) (c # cs) = (if p = c then stripPrefix ps cs else None)"

definition notSlash :: "char \<Rightarrow> bool" where
  "notSlash c = (c \<noteq> CHR ''/'')"

definition notLineTerminator :: "char \<Rightarrow> bool" where
  "notLineTerminator c = (c \<noteq> CHR 0x0A \<and> c \<noteq> CHR 0x0D)"

definition refGroup :: "string \<Rightarrow> string option" where
  "refGroup s =
     (case s of
        [] \<Rightarrow> None
      | c # cs \<Rightarrow>
          (if c = CHR ''/'' \<and> takeWhile notLineTerminator cs \<noteq> []
           then Some (c # takeWhile notLineTerminator cs) else None))"

text \<open>A match starting at the first character: the three groups.\<close>

definition matchHere :: "string \<Rightarrow> (string \<times> string \<times> string option) option" where
  "matchHere s =
     (case stripPrefix ''projects/'' s of
        None \<Rightarrow> None
      | Some r1 \<Rightarrow>
          (if takeWhile notSlash r1 = [] then None
           else
             (case stripPrefix ''/instances/'' (dropWhile notSlash r1) of
                None \<Rightarrow> None
              | Some r2 \<Rightarrow>
                  (if takeWhile notSlash r2 = [] then None
                   else
                     (case stripPrefix ''/refs'' (dropWhile notSlash r2) of
                        None \<Rightarrow> None
                      | Some r3 \<Rightarrow>
                          Some (takeWhile notSlash r1, takeWhile notSlash r2, refGroup r3))))))"

fun resourceMatch :: "string \<Rightarrow> (string \<times> string \<times> string option) option" where
  "resourceMatch [] = matchHere []"
| "resourceMatch (c # cs) =
     (case matchHere (c # cs) of Some m \<Rightarrow> Some m | None \<Rightarrow> resourceMatch cs)"

text \<open>
  The grammar as the specification writes it,
  \<^verbatim>\<open>projects/_/instances/<id>/refs(/<path>)?\<close>, read as a description of the whole
  string: \<^verbatim>\<open><id>\<close> is a non-empty segment without a slash and \<^verbatim>\<open><path>\<close> is non-empty.
\<close>

definition conformsToGrammar :: "string \<Rightarrow> bool" where
  "conformsToGrammar s =
     (case stripPrefix ''projects/_/instances/'' s of
        None \<Rightarrow> False
      | Some r \<Rightarrow>
          takeWhile notSlash r \<noteq> [] \<and>
          (case stripPrefix ''/refs'' (dropWhile notSlash r) of
             None \<Rightarrow> False
           | Some t \<Rightarrow> (case t of [] \<Rightarrow> True | c # path \<Rightarrow> c = CHR ''/'' \<and> path \<noteq> [])))"

text \<open>
  What a successful match means, without reference to the matcher: the string starting
  at some position reads \<^verbatim>\<open>projects/\<close>, a project, \<^verbatim>\<open>/instances/\<close>, an instance,
  \<^verbatim>\<open>/refs\<close> and any rest, where project and instance are non-empty and contain no
  slash. The project of the leftmost such position is the one the constructor compares
  with \<^verbatim>\<open>_\<close>.
\<close>

definition occurrence :: "string \<Rightarrow> string \<Rightarrow> string \<Rightarrow> string \<Rightarrow> bool" where
  "occurrence s project instance rest =
     (s = ''projects/'' @ project @ ''/instances/'' @ instance @ ''/refs'' @ rest \<and>
      project \<noteq> [] \<and> list_all notSlash project \<and>
      instance \<noteq> [] \<and> list_all notSlash instance)"

definition occursAt :: "string \<Rightarrow> nat \<Rightarrow> string \<Rightarrow> bool" where
  "occursAt r n project =
     (n \<le> length r \<and> (\<exists>instance rest. occurrence (drop n r) project instance rest))"

definition leftmostProject :: "string \<Rightarrow> string \<Rightarrow> bool" where
  "leftmostProject r project =
     (\<exists>n. occursAt r n project \<and> (\<forall>m p. m < n \<longrightarrow> \<not> occursAt r m p))"

section \<open>External collaborators\<close>

text \<open>
  \<^verbatim>\<open>normalizePath\<close>, \<^verbatim>\<open>applyChange\<close>, \<^verbatim>\<open>pathParts\<close>, \<^verbatim>\<open>valAt\<close> and \<^verbatim>\<open>joinPath\<close>
  are imported from \<^verbatim>\<open>../utils\<close>. The class is modelled over an arbitrary
  implementation of them, passed as a record. A string argument may be \<^verbatim>\<open>undefined\<close>
  (\<open>None\<close>): the root snapshot never assigns \<^verbatim>\<open>_childPath\<close>, and the third group of the
  resource match may be missing.
\<close>

record utils =
  normalizePath :: "string option \<Rightarrow> string"
  applyChange :: "json \<Rightarrow> json \<Rightarrow> json"
  pathParts :: "string option \<Rightarrow> string list"
  valAt :: "json \<Rightarrow> string option \<Rightarrow> json"
  joinPath :: "string option \<Rightarrow> string option \<Rightarrow> string"

section \<open>The class DeltaSnapshot\<close>

text \<open>The raw event: \<^verbatim>\<open>resource\<close>, \<^verbatim>\<open>auth\<close>, \<^verbatim>\<open>data.data\<close> and \<^verbatim>\<open>data.delta\<close>.\<close>

record 'auth rawEvent =
  resource :: string
  auth :: 'auth
  data_data :: json
  data_delta :: json

text \<open>
  The private fields \<^verbatim>\<open>_adminRef\<close>, \<^verbatim>\<open>_apps\<close>, \<^verbatim>\<open>_ref\<close>, \<^verbatim>\<open>_path\<close>, \<^verbatim>\<open>_data\<close>,
  \<^verbatim>\<open>_delta\<close>, \<^verbatim>\<open>_newData\<close>, \<^verbatim>\<open>_auth\<close>, \<^verbatim>\<open>_childPath\<close> and \<^verbatim>\<open>_isPrevious\<close>. A field
  that was never assigned is \<open>None\<close>, \<open>JUndefined\<close> or, for the flag, \<open>False\<close>.
  The getters \<^verbatim>\<open>ref\<close> and \<^verbatim>\<open>adminRef\<close>, which fill \<^verbatim>\<open>_ref\<close> and \<^verbatim>\<open>_adminRef\<close> with
  live database references, are not modelled; no operation below writes these two fields
  of an existing object.
\<close>

record ('apps, 'auth, 'ref) deltaSnapshot =
  s_adminRef :: "'ref option"
  s_apps :: 'apps
  s_ref :: "'ref option"
  s_path :: "string option"
  s_data :: json
  s_delta :: json
  s_newData :: json
  s_auth :: "'auth option"
  s_childPath :: "string option"
  s_isPrevious :: bool

datatype error =
    UnexpectedResource string
  | ExpectProject

text \<open>The object after \<^verbatim>\<open>this._apps = apps\<close>, before anything else is assigned.\<close>

definition blank :: "'apps \<Rightarrow> ('apps, 'auth, 'ref) deltaSnapshot" where
  "blank apps =
     \<lparr>s_adminRef = None, s_apps = apps, s_ref = None, s_path = None, s_data = JUndefined,
      s_delta = JUndefined, s_newData = JUndefined, s_auth = None, s_childPath = None,
      s_isPrevious = False\<rparr>"

text \<open>\<^verbatim>\<open>new DeltaSnapshot(apps, event)\<close>; \<open>None\<close> is the event \<^verbatim>\<open>null\<close>.\<close>

definition new_DeltaSnapshot ::
  "utils \<Rightarrow> 'apps \<Rightarrow> 'auth rawEvent option \<Rightarrow> error + ('apps, 'auth, 'ref) deltaSnapshot" where
  "new_DeltaSnapshot U apps event =
     (case event of
        None \<Rightarrow> Inr (blank apps)
      | Some ev \<Rightarrow>
          (case resourceMatch (resource ev) of
             None \<Rightarrow> Inl (UnexpectedResource (resource ev))
           | Some (project, instance, ref) \<Rightarrow>
               if project \<noteq> ''_'' then Inl ExpectProject
               else Inr ((blank apps)
                      \<lparr>s_path := Some (normalizePath U ref),
                       s_auth := Some (auth ev),
                       s_data := data_data ev,
                       s_delta := data_delta ev,
                       s_newData := applyChange U (data_data ev) (data_delta ev)\<rparr>)))"

text \<open>Truthiness of a string that may be \<^verbatim>\<open>undefined\<close>.\<close>

definition truthy :: "string option \<Rightarrow> bool" where
  "truthy x = (case x of None \<Rightarrow> False | Some s \<Rightarrow> s \<noteq> [])"

definition orEmpty :: "string option \<Rightarrow> string" where
  "orEmpty x = (case x of None \<Rightarrow> [] | Some s \<Rightarrow> s)"

text \<open>\<^verbatim>\<open>_dup(previous, childPath)\<close>: the fields of the object it returns.\<close>

definition dup ::
  "utils \<Rightarrow> ('apps, 'auth, 'ref) deltaSnapshot \<Rightarrow> bool \<Rightarrow> string option \<Rightarrow>
   ('apps, 'auth, 'ref) deltaSnapshot" where
  "dup U this previous childPath =
     (let d0 = (blank (s_apps this))
                 \<lparr>s_path := s_path this, s_auth := s_auth this, s_data := s_data this,
                  s_delta := s_delta this, s_childPath := s_childPath this,
                  s_newData := s_newData this\<rparr>;
          d1 = (if previous then d0\<lparr>s_isPrevious := True\<rparr> else d0)
      in if truthy childPath
         then d1\<lparr>s_childPath := Some (joinPath U (s_childPath d1) childPath)\<rparr>
         else d1)"

definition fullPath :: "('apps, 'auth, 'ref) deltaSnapshot \<Rightarrow> string" where
  "fullPath this =
     (let out = orEmpty (s_path this) @ orEmpty (s_childPath this)
      in if out = [] then ''/'' else out)"

text \<open>The getter \<^verbatim>\<open>key\<close>; \<open>None\<close> is \<^verbatim>\<open>null\<close>. \<^verbatim>\<open>_.last\<close> of no parts is \<^verbatim>\<open>undefined\<close>.\<close>

definition key :: "utils \<Rightarrow> ('apps, 'auth, 'ref) deltaSnapshot \<Rightarrow> string option" where
  "key U this =
     (case pathParts U (Some (fullPath this)) of
        [] \<Rightarrow> None
      | p # ps \<Rightarrow> if last (p # ps) = [] then None else Some (last (p # ps)))"

definition source :: "('apps, 'auth, 'ref) deltaSnapshot \<Rightarrow> json" where
  "source this = (if s_isPrevious this then s_data this else s_newData this)"

definition val :: "utils \<Rightarrow> ('apps, 'auth, 'ref) deltaSnapshot \<Rightarrow> json" where
  "val U this =
     (let parts = pathParts U (s_childPath this);
          node = cloneDeep (if parts \<noteq> [] then lodash_get (source this) parts JNull
                            else source this)
      in checkAndConvertToArray node)"

definition exists :: "utils \<Rightarrow> ('apps, 'auth, 'ref) deltaSnapshot \<Rightarrow> bool" where
  "exists U this = (val U this \<noteq> JNull)"

definition child ::
  "utils \<Rightarrow> ('apps, 'auth, 'ref) deltaSnapshot \<Rightarrow> string option \<Rightarrow>
   ('apps, 'auth, 'ref) deltaSnapshot" where
  "child U this childPath =
     (if \<not> truthy childPath then this else dup U this (s_isPrevious this) childPath)"

definition previous ::
  "utils \<Rightarrow> ('apps, 'auth, 'ref) deltaSnapshot \<Rightarrow> ('apps, 'auth, 'ref) deltaSnapshot" where
  "previous U this = (if s_isPrevious this then this else dup U this True None)"

definition current ::
  "utils \<Rightarrow> ('apps, 'auth, 'ref) deltaSnapshot \<Rightarrow> ('apps, 'auth, 'ref) deltaSnapshot" where
  "current U this = (if s_isPrevious this then dup U this False None else this)"

definition changed :: "utils \<Rightarrow> ('apps, 'auth, 'ref) deltaSnapshot \<Rightarrow> bool" where
  "changed U this = (valAt U (s_delta this) (s_childPath this) \<noteq> JUndefined)"

text \<open>
  \<^verbatim>\<open>forEach(action)\<close>. The action is a function with an effect: it takes the child
  snapshot and the state of the world, and returns its boolean and the new state.
  \<^verbatim>\<open>Array.prototype.forEach\<close> discards what the action returns.
\<close>

definition forEach ::
  "utils \<Rightarrow> ('apps, 'auth, 'ref) deltaSnapshot \<Rightarrow>
   (('apps, 'auth, 'ref) deltaSnapshot \<Rightarrow> 'w \<Rightarrow> bool \<times> 'w) \<Rightarrow> 'w \<Rightarrow> bool \<times> 'w" where
  "forEach U this action w =
     (let v = val U this
      in (False,
          if isPlainObject v
          then foldl (\<lambda>w k. snd (action (child U this (Some k)) w)) w (keys v)
          else w))"

definition hasChild :: "utils \<Rightarrow> ('apps, 'auth, 'ref) deltaSnapshot \<Rightarrow> string option \<Rightarrow> bool" where
  "hasChild U this childPath = exists U (child U this childPath)"

definition hasChildren :: "utils \<Rightarrow> ('apps, 'auth, 'ref) deltaSnapshot \<Rightarrow> bool" where
  "hasChildren U this = (let v = val U this in isPlainObject v \<and> length (keys v) > 0)"

definition numChildren :: "utils \<Rightarrow> ('apps, 'auth, 'ref) deltaSnapshot \<Rightarrow> nat" where
  "numChildren U this = (let v = val U this in if isPlainObject v then length (keys v) else 0)"

subsection \<open>Snapshots as objects in a store\<close>

text \<open>
  \<^verbatim>\<open>child\<close>, \<^verbatim>\<open>previous\<close> and \<^verbatim>\<open>current\<close> return either the receiver itself or a
  new object. To say what they do to the objects that already exist, the objects live in
  a store, a list indexed by address, and an operation returns the new store and the
  address of its result.
\<close>

type_synonym ('apps, 'auth, 'ref) store = "('apps, 'auth, 'ref) deltaSnapshot list"

definition alloc ::
  "('apps, 'auth, 'ref) store \<Rightarrow> ('apps, 'auth, 'ref) deltaSnapshot \<Rightarrow>
   ('apps, 'auth, 'ref) store \<times> nat" where
  "alloc h x = (h @ [x], length h)"

definition store_child ::
  "utils \<Rightarrow> ('apps, 'auth, 'ref) store \<Rightarrow> nat \<Rightarrow> string option \<Rightarrow>
   ('apps, 'auth, 'ref) store \<times> nat" where
  "store_child U h this childPath =
     (if \<not> truthy childPath then (h, this)
      else alloc h (dup U (h ! this) (s_isPrevious (h ! this)) childPath))"

definition store_previous ::
  "utils \<Rightarrow> ('apps, 'auth, 'ref) store \<Rightarrow> nat \<Rightarrow> ('apps, 'auth, 'ref) store \<times> nat" where
  "store_previous U h this =
     (if s_isPrevious (h ! this) then (h, this) else alloc h (dup U (h ! this) True None))"

definition store_current ::
  "utils \<Rightarrow> ('apps, 'auth, 'ref) store \<Rightarrow> nat \<Rightarrow> ('apps, 'auth, 'ref) store \<times> nat" where
  "store_current U h this =
     (if s_isPrevious (h ! this) then alloc h (dup U (h ! this) False None) else (h, this))"

text \<open>
  Two snapshots are views of one envelope when they agree on the base tree, the delta
  tree, the derived tree, the auth context and the absolute base path (and on the
  \<^verbatim>\<open>apps\<close> handle).
\<close>

definition sharesEnvelope ::
  "('apps, 'auth, 'ref) deltaSnapshot \<Rightarrow> ('apps, 'auth, 'ref) deltaSnapshot \<Rightarrow> bool" where
  "sharesEnvelope a b =
     (s_data b = s_data a \<and> s_delta b = s_delta a \<and> s_newData b = s_newData a \<and>
      s_auth b = s_auth a \<and> s_path b = s_path a \<and> s_apps b = s_apps a)"

subsection \<open>Sequences of navigation steps\<close>

datatype nav = Child "string option" | Previous | Current

fun navStep ::
  "utils \<Rightarrow> ('apps, 'auth, 'ref) deltaSnapshot \<Rightarrow> nav \<Rightarrow> ('apps, 'auth, 'ref) deltaSnapshot" where
  "navStep U this (Child p) = child U this p"
| "navStep U this Previous = previous U this"
| "navStep U this Current = current U this"

definition navigate ::
  "utils \<Rightarrow> ('apps, 'auth, 'ref) deltaSnapshot \<Rightarrow> nav list \<Rightarrow>
   ('apps, 'auth, 'ref) deltaSnapshot" where
  "navigate U this steps = foldl (navStep U) this steps"

section \<open>A reading of the external primitives\<close>

text \<open>
  Modelled from the spec: the module \<^verbatim>\<open>../utils\<close> (\<^verbatim>\<open>normalizePath\<close>,
  \<^verbatim>\<open>pathParts\<close>, \<^verbatim>\<open>joinPath\<close>, \<^verbatim>\<open>valAt\<close>, \<^verbatim>\<open>applyChange\<close>) is not among the
  sources. The specification describes a path as slash-separated segments, asks that
  \<^verbatim>\<open>pathParts(normalizePath(p))\<close> gives the same segments whatever leading or trailing
  slashes \<open>p\<close> has, and that \<^verbatim>\<open>joinPath\<close> composes two fragments into a path that
  \<^verbatim>\<open>pathParts\<close> can split. Here a path splits at slashes into its non-empty segments,
  the normal form of a path is its segments joined by single slashes, and joining two
  paths joins their segments. This instance serves the concrete examples; the general
  theorems hold for every implementation.
\<close>

fun segments :: "string \<Rightarrow> string \<Rightarrow> string list" where
  "segments acc [] = (if acc = [] then [] else [acc])"
| "segments acc (c # cs) =
     (if c = CHR ''/'' then (if acc = [] then segments [] cs else acc # segments [] cs)
      else segments (acc @ [c]) cs)"

fun joinSegments :: "string list \<Rightarrow> string" where
  "joinSegments [] = []"
| "joinSegments [x] = x"
| "joinSegments (x # y # zs) = x @ CHR ''/'' # joinSegments (y # zs)"

definition spec_pathParts :: "string option \<Rightarrow> string list" where
  "spec_pathParts path = (case path of None \<Rightarrow> [] | Some p \<Rightarrow> segments [] p)"

definition spec_normalizePath :: "string option \<Rightarrow> string" where
  "spec_normalizePath path = joinSegments (spec_pathParts path)"

definition spec_joinPath :: "string option \<Rightarrow> string option \<Rightarrow> string" where
  "spec_joinPath a b = joinSegments (spec_pathParts a @ spec_pathParts b)"

text \<open>A segment is non-empty and has no slash.\<close>

definition goodSegment :: "string \<Rightarrow> bool" where
  "goodSegment x = (x \<noteq> [] \<and> list_all notSlash x)"

text \<open>
  Modelled from the spec: \<^verbatim>\<open>valAt(tree, path)\<close> is the value of the tree at the path, or
  \<^verbatim>\<open>undefined\<close> when the path leaves the tree.
\<close>

fun valueAt :: "json \<Rightarrow> string list \<Rightarrow> json" where
  "valueAt t [] = t"
| "valueAt (JObj kvs) (k # ks) =
     (case map_of kvs k of None \<Rightarrow> JUndefined | Some c \<Rightarrow> valueAt c ks)"
| "valueAt t (k # ks) = JUndefined"

definition spec_valAt :: "json \<Rightarrow> string option \<Rightarrow> json" where
  "spec_valAt t path = valueAt t (spec_pathParts path)"

text \<open>
  Modelled from the spec: the delta applier of section 4.1. A delta that is not a keyed
  mapping is the result. A delta that is a mapping is merged key by key: a key of the
  delta gets the result for the base's child (absent when the base is no mapping or lacks
  the key) and the delta's child; a key only the base has keeps its value. The result
  lists the base's keys first, then the keys only the delta has.
\<close>

definition children :: "json \<Rightarrow> (string \<times> json) list" where
  "children t = (case t of JObj kvs \<Rightarrow> kvs | _ \<Rightarrow> [])"

definition childOf :: "json \<Rightarrow> string \<Rightarrow> json" where
  "childOf t k = (case map_of (children t) k of None \<Rightarrow> JUndefined | Some c \<Rightarrow> c)"

definition mergeChildren ::
  "(string \<times> json) list \<Rightarrow> (string \<times> json) list \<Rightarrow> (string \<times> json) list" where
  "mergeChildren base patched =
     map (\<lambda>(k, b). (k, case map_of patched k of None \<Rightarrow> b | Some r \<Rightarrow> r)) base @
     filter (\<lambda>(k, r). k \<notin> fst ` set base) patched"

function spec_applyChange :: "json \<Rightarrow> json \<Rightarrow> json" where
  "spec_applyChange base dlt =
     (case dlt of
        JObj dkvs \<Rightarrow>
          JObj (mergeChildren (children base)
                  (map (\<lambda>entry. (fst entry, spec_applyChange (childOf base (fst entry)) (snd entry)))
                     dkvs))
      | _ \<Rightarrow> dlt)"
  by pat_completeness auto
termination
proof (relation "measure (\<lambda>(base, dlt). size dlt)")
  show "wf (measure (\<lambda>(base, dlt). size dlt))" by simp
next
  fix base dlt :: json and dkvs :: "(string \<times> json) list" and entry :: "string \<times> json"
  assume "dlt = JObj dkvs" "entry \<in> set dkvs"
  then have "size (snd entry) < size dlt"
    using size_in_obj [of "fst entry" "snd entry" dkvs] by simp
  then show "((childOf base (fst entry), snd entry), (base, dlt)) \<in> measure (\<lambda>(base, dlt). size dlt)"
    by simp
qed

declare spec_applyChange.simps [simp del]

definition spec_utils :: utils where
  "spec_utils =
     \<lparr>normalizePath = spec_normalizePath,
      applyChange = spec_applyChange,
      pathParts = spec_pathParts,
      valAt = spec_valAt,
      joinPath = spec_joinPath\<rparr>"

text \<open>
  The reading of ``the selected source tree holds value \<open>v\<close> at the path'': the path
  descends through own keys of mappings and through elements of arrays.
\<close>

fun treeAt :: "json \<Rightarrow> string list \<Rightarrow> json option" where
  "treeAt t [] = Some t"
| "treeAt (JObj kvs) (k # ks) =
     (case map_of kvs k of None \<Rightarrow> None | Some c \<Rightarrow> treeAt c ks)"
| "treeAt (JArr xs) (k # ks) =
     (if isArrayIndex k \<and> Number k < length xs
      then (case xs ! Number k of None \<Rightarrow> None | Some c \<Rightarrow> treeAt c ks)
      else None)"
| "treeAt t (k # ks) = None"

section \<open>An example envelope\<close>

text \<open>
  The envelope of the specification's example: base \<^verbatim>\<open>{a: 1}\<close>, delta \<^verbatim>\<open>{a: 2}\<close>, at
  the reference \<^verbatim>\<open>foo\<close>, and the root snapshot built from it with the primitives above.
\<close>

definition example_event :: "unit rawEvent" where
  "example_event =
     \<lparr>resource = ''projects/_/instances/db/refs/foo'', auth = (),
      data_data = JObj [(''a'', JNum 1)], data_delta = JObj [(''a'', JNum 2)]\<rparr>"

definition example_root :: "(unit, unit, unit) deltaSnapshot" where
  "example_root =
     \<lparr>s_adminRef = None, s_apps = (), s_ref = None, s_path = Some ''foo'',
      s_data = JObj [(''a'', JNum 1)], s_delta = JObj [(''a'', JNum 2)],
      s_newData = JObj [(''a'', JNum 2)], s_auth = Some (), s_childPath = None,
      s_isPrevious = False\<rparr>"

text \<open>
  A second envelope, at the root reference: the base holds a mapping with the keys
  \<^verbatim>\<open>0\<close> and \<^verbatim>\<open>1\<close> under \<^verbatim>\<open>list\<close> and an empty mapping under \<^verbatim>\<open>none\<close>; the delta
  adds a string under \<^verbatim>\<open>name\<close>.
\<close>

definition array_event :: "unit rawEvent" where
  "array_event =
     \<lparr>resource = ''projects/_/instances/db/refs'', auth = (),
      data_data = JObj [(''list'', JObj [(''0'', JStr ''a''), (''1'', JStr ''b'')]),
                        (''none'', JObj [])],
      data_delta = JObj [(''name'', JStr ''hello'')]\<rparr>"

definition array_root :: "(unit, unit, unit) deltaSnapshot" where
  "array_root =
     \<lparr>s_adminRef = None, s_apps = (), s_ref = None, s_path = Some '''',
      s_data = JObj [(''list'', JObj [(''0'', JStr ''a''), (''1'', JStr ''b'')]),
                     (''none'', JObj [])],
      s_delta = JObj [(''name'', JStr ''hello'')],
      s_newData = JObj [(''list'', JObj [(''0'', JStr ''a''), (''1'', JStr ''b'')]),
                        (''none'', JObj []), (''name'', JStr ''hello'')],
      s_auth = Some (), s_childPath = None, s_isPrevious = False\<rparr>"

text \<open>
  A third envelope, at the root reference: the base holds the string \<^verbatim>\<open>hello\<close> under
  \<^verbatim>\<open>name\<close>, and the delta sets \<^verbatim>\<open>other\<close>.
\<close>

definition string_event :: "unit rawEvent" where
  "string_event =
     \<lparr>resource = ''projects/_/instances/db/refs'', auth = (),
      data_data = JObj [(''name'', JStr ''hello'')],
      data_delta = JObj [(''other'', JNum 1)]\<rparr>"

definition string_root :: "(unit, unit, unit) deltaSnapshot" where
  "string_root =
     \<lparr>s_adminRef = None, s_apps = (), s_ref = None, s_path = Some [],
      s_data = JObj [(''name'', JStr ''hello'')],
      s_delta = JObj [(''other'', JNum 1)],
      s_newData = JObj [(''name'', JStr ''hello''), (''other'', JNum 1)],
      s_auth = Some (), s_childPath = None, s_isPrevious = False\<rparr>"

text \<open>
  An envelope whose resource has text before and after the expected format.
\<close>

definition junk_event :: "unit rawEvent" where
  "junk_event =
     \<lparr>resource = ''other/projects/_/instances/db/refs.json'', auth = (),
      data_data = JNull, data_delta = JNull\<rparr>"

section \<open>Properties of navigation\<close>

lemma example_root_constructed:
  "new_DeltaSnapshot spec_utils () (Some example_event) = Inr example_root"
  by code_simp

lemma dup_fields [simp]:
  "s_apps (dup U this p c) = s_apps this"
  "s_path (dup U this p c) = s_path this"
  "s_auth (dup U this p c) = s_auth this"
  "s_data (dup U this p c) = s_data this"
  "s_delta (dup U this p c) = s_delta this"
  "s_newData (dup U this p c) = s_newData this"
  "s_isPrevious (dup U this p c) = p"
  "s_childPath (dup U this p c) =
     (if truthy c then Some (joinPath U (s_childPath this) c) else s_childPath this)"
  by (simp_all add: dup_def blank_def Let_def)

lemma navStep_trees:
  "s_data (navStep U this n) = s_data this \<and> s_delta (navStep U this n) = s_delta this \<and>
   s_newData (navStep U this n) = s_newData this"
  by (cases n) (simp_all add: child_def previous_def current_def)

lemma navigate_trees:
  "s_data (navigate U this steps) = s_data this \<and>
   s_delta (navigate U this steps) = s_delta this \<and>
   s_newData (navigate U this steps) = s_newData this"
  unfolding navigate_def
  by (induction steps arbitrary: this) (simp_all add: navStep_trees)

lemma constructed_fields:
  assumes "new_DeltaSnapshot U apps (Some ev) = Inr s0"
  shows "s_data s0 = data_data ev" "s_delta s0 = data_delta ev"
    "s_newData s0 = applyChange U (data_data ev) (data_delta ev)"
    "s_auth s0 = Some (auth ev)" "s_childPath s0 = None" "s_isPrevious s0 = False"
    "s_apps s0 = apps"
  using assms
  by (auto simp: new_DeltaSnapshot_def blank_def split: option.splits if_splits)

text \<open>
  C2. Let \<open>s0\<close> be the snapshot the constructor builds from an envelope. Whatever sequence
  of \<^verbatim>\<open>child\<close>, \<^verbatim>\<open>previous\<close> and \<^verbatim>\<open>current\<close> steps leads from \<open>s0\<close> to a snapshot, the
  field \<^verbatim>\<open>_newData\<close> of that snapshot is the value \<^verbatim>\<open>applyChange(base, delta)\<close> that the
  constructor computed: the steps copy the field, together with the base and the delta,
  and none of them computes it again or replaces it.
\<close>

theorem derived_tree_frozen:
  assumes "new_DeltaSnapshot U apps (Some ev) = Inr s0"
  shows "s_newData (navigate U s0 steps) = applyChange U (data_data ev) (data_delta ev) \<and>
         s_newData (navigate U s0 steps) =
           applyChange U (s_data (navigate U s0 steps)) (s_delta (navigate U s0 steps)) \<and>
         s_newData (navigate U s0 steps) = s_newData s0"
  using constructed_fields(1-3) [OF assms] navigate_trees [of U s0 steps] by simp

theorem derived_tree_frozen_witness:
  "new_DeltaSnapshot spec_utils () (Some example_event) = Inr example_root \<and>
   s_newData (navigate spec_utils example_root
                [Child (Some ''a''), Previous, Child (Some ''x/y''), Current]) =
     applyChange spec_utils (JObj [(''a'', JNum 1)]) (JObj [(''a'', JNum 2)])"
  using derived_tree_frozen [OF example_root_constructed,
      of "[Child (Some ''a''), Previous, Child (Some ''x/y''), Current]"]
    example_root_constructed
  by (simp add: example_event_def)

lemma sharesEnvelope_refl [simp]: "sharesEnvelope a a"
  by (simp add: sharesEnvelope_def)

lemma sharesEnvelope_dup [simp]: "sharesEnvelope a (dup U a p c)"
  by (simp add: sharesEnvelope_def)

lemma store_child_frame:
  assumes "this < length h" and "store_child U h this p = (h', r)"
  shows "take (length h) h' = h \<and> r < length h' \<and> h' ! r = child U (h ! this) p"
  using assms by (auto simp: store_child_def alloc_def child_def split: if_splits)

lemma store_previous_frame:
  assumes "this < length h" and "store_previous U h this = (h', r)"
  shows "take (length h) h' = h \<and> r < length h' \<and> h' ! r = previous U (h ! this)"
  using assms by (auto simp: store_previous_def alloc_def previous_def split: if_splits)

lemma store_current_frame:
  assumes "this < length h" and "store_current U h this = (h', r)"
  shows "take (length h) h' = h \<and> r < length h' \<and> h' ! r = current U (h ! this)"
  using assms by (auto simp: store_current_def alloc_def current_def split: if_splits)

lemma child_view:
  "sharesEnvelope this (child U this p) \<and>
   s_isPrevious (child U this p) = s_isPrevious this \<and>
   s_childPath (child U this p) =
     (if truthy p then Some (joinPath U (s_childPath this) p) else s_childPath this)"
  by (simp add: child_def)

lemma previous_view:
  "sharesEnvelope this (previous U this) \<and> s_isPrevious (previous U this) \<and>
   s_childPath (previous U this) = s_childPath this"
  by (simp add: previous_def truthy_def)

lemma current_view:
  "sharesEnvelope this (current U this) \<and> \<not> s_isPrevious (current U this) \<and>
   s_childPath (current U this) = s_childPath this"
  by (simp add: current_def truthy_def)

text \<open>
  C5. \<^verbatim>\<open>child(p)\<close>, \<^verbatim>\<open>previous\<close> and \<^verbatim>\<open>current\<close> leave every object that
  exists, the receiver among them, as it was: the store they return extends the old one.
  The snapshot they return is a view of the receiver's envelope: same base tree, delta
  tree, derived tree, auth context and base path. \<^verbatim>\<open>child(p)\<close> keeps the flag and joins
  \<open>p\<close> onto the relative offset (or keeps it when \<open>p\<close> is empty or missing);
  \<^verbatim>\<open>previous\<close> and \<^verbatim>\<open>current\<close> set the flag and keep the relative offset.
\<close>

theorem navigation_frame:
  assumes "this < length h"
  shows
    "(case store_child U h this p of (h', r) \<Rightarrow>
        take (length h) h' = h \<and> r < length h' \<and> sharesEnvelope (h ! this) (h' ! r) \<and>
        s_isPrevious (h' ! r) = s_isPrevious (h ! this) \<and>
        s_childPath (h' ! r) =
          (if truthy p then Some (joinPath U (s_childPath (h ! this)) p)
           else s_childPath (h ! this))) \<and>
     (case store_previous U h this of (h', r) \<Rightarrow>
        take (length h) h' = h \<and> r < length h' \<and> sharesEnvelope (h ! this) (h' ! r) \<and>
        s_isPrevious (h' ! r) \<and> s_childPath (h' ! r) = s_childPath (h ! this)) \<and>
     (case store_current U h this of (h', r) \<Rightarrow>
        take (length h) h' = h \<and> r < length h' \<and> sharesEnvelope (h ! this) (h' ! r) \<and>
        \<not> s_isPrevious (h' ! r) \<and> s_childPath (h' ! r) = s_childPath (h ! this))"
proof -
  obtain h1 r1 where c: "store_child U h this p = (h1, r1)" by (cases "store_child U h this p")
  obtain h2 r2 where p: "store_previous U h this = (h2, r2)" by (cases "store_previous U h this")
  obtain h3 r3 where n: "store_current U h this = (h3, r3)" by (cases "store_current U h this")
  show ?thesis
    using store_child_frame [OF assms c] store_previous_frame [OF assms p]
      store_current_frame [OF assms n] child_view [of "h ! this" U p]
      previous_view [of "h ! this" U] current_view [of "h ! this" U]
    by (simp add: c p n)
qed

theorem navigation_frame_witness:
  "(case store_child spec_utils [example_root] 0 (Some ''a'') of (h', r) \<Rightarrow>
      take 1 h' = [example_root] \<and> r = 1 \<and> length h' = 2 \<and>
      s_childPath (h' ! r) = Some ''a'' \<and> s_newData (h' ! r) = JObj [(''a'', JNum 2)]) \<and>
   (case store_previous spec_utils [example_root, child spec_utils example_root (Some ''a'')] 1
    of (h', r) \<Rightarrow>
      take 2 h' = [example_root, child spec_utils example_root (Some ''a'')] \<and>
      s_isPrevious (h' ! r) \<and> s_childPath (h' ! r) = Some ''a'')"
  using navigation_frame [where this = 0 and h = "[example_root]" and U = spec_utils
      and p = "Some ''a''"]
    navigation_frame [where this = 1
      and h = "[example_root, child spec_utils example_root (Some ''a'')]"
      and U = spec_utils and p = None]
  by (simp add: store_child_def store_previous_def alloc_def truthy_def split_def child_def
      example_root_def spec_utils_def spec_joinPath_def spec_pathParts_def)

section \<open>Properties of the values a snapshot returns\<close>

lemma set_obj_insert: "fst ` set (obj_insert ob k v) = insert k (fst ` set ob)"
  by (induction ob k v rule: obj_insert.induct) auto

lemma distinct_obj_insert:
  "k \<notin> fst ` set ob \<Longrightarrow> distinct (map fst ob) \<Longrightarrow> distinct (map fst (obj_insert ob k v))"
proof (induction ob k v rule: obj_insert.induct)
  case (1 key v)
  then show ?case by simp
next
  case (2 k x ps key v)
  then show ?case using set_obj_insert [of ps key v] by auto
qed

lemma map_fst_replace:
  "map fst (map (\<lambda>(k, x). if k = kk then (k, v) else (k, x)) ob) = map fst ob"
  by (induction ob) auto

lemma distinct_obj_set:
  assumes "distinct (map fst ob)"
  shows "distinct (map fst (obj_set ob k v))"
proof (cases "k \<in> fst ` set ob")
  case True
  then have "map fst (obj_set ob k v) = map fst ob"
    unfolding obj_set_def using map_fst_replace [of k v ob] by simp
  with assms show ?thesis by simp
next
  case False
  then show ?thesis using assms by (simp add: obj_set_def distinct_obj_insert)
qed

lemma distinct_loop:
  "distinct (map fst (obj st)) \<Longrightarrow>
   distinct (map fst (obj (foldl (\<lambda>st entry. iteratee st (fst entry) (f (snd entry))) st es)))"
  by (induction es arbitrary: st) (simp_all add: iteratee_def distinct_obj_set)

lemma normalizer_object_keys_distinct:
  assumes "checkAndConvertToArray node = JObj kvs"
  shows "distinct (map fst kvs)"
proof -
  let ?st = "foldl (\<lambda>st entry. iteratee st (fst entry) (checkAndConvertToArray (snd entry)))
                \<lparr>obj = [], numKeys = 0, maxKey = 0, allIntegerKeys = True\<rparr>
                (forEach_entries node)"
  from assms have "isObject node"
    by (subst (asm) checkAndConvertToArray.simps) (auto simp: isObject_def split: if_splits)
  with assms have "finish ?st = JObj kvs"
    by (subst (asm) checkAndConvertToArray.simps) (auto simp: isObject_def split: if_splits)
  then have "kvs = obj ?st" by (simp add: finish_def split: if_splits)
  moreover have "distinct (map fst (obj ?st))" by (rule distinct_loop) simp
  ultimately show ?thesis by simp
qed

lemma normalizer_empty_object: "checkAndConvertToArray (JObj []) = JObj []"
  by code_simp

lemma normalizer_never_undefined: "checkAndConvertToArray node \<noteq> JUndefined"
  by (subst checkAndConvertToArray.simps) (auto simp: finish_def isObject_def split: json.splits)

lemma val_never_undefined: "val U s \<noteq> JUndefined"
  by (simp add: val_def Let_def normalizer_never_undefined)

lemma hasChildren_iff: "hasChildren U s \<longleftrightarrow> (\<exists>kvs. val U s = JObj kvs \<and> kvs \<noteq> [])"
  by (cases "val U s") (simp_all add: hasChildren_def Let_def isPlainObject_def keys_def)

lemma numChildren_eq:
  "numChildren U s = (case val U s of JObj kvs \<Rightarrow> length kvs | _ \<Rightarrow> 0)"
  by (cases "val U s") (simp_all add: numChildren_def Let_def isPlainObject_def keys_def)

lemma val_keys_distinct: "val U s = JObj kvs \<Longrightarrow> distinct (map fst kvs)"
  unfolding val_def Let_def by (rule normalizer_object_keys_distinct)

lemma array_root_constructed:
  "new_DeltaSnapshot spec_utils () (Some array_event) = Inr array_root"
  by code_simp

lemma array_root_list:
  "val spec_utils (child spec_utils array_root (Some ''list'')) =
     JArr [Some (JStr ''a''), Some (JStr ''b'')]"
  by code_simp

lemma array_root_val:
  "val spec_utils array_root =
     JObj [(''list'', JArr [Some (JStr ''a''), Some (JStr ''b'')]), (''none'', JObj []),
           (''name'', JStr ''hello'')]"
  by code_simp

text \<open>
  C7. \<^verbatim>\<open>hasChildren()\<close> is true exactly when \<^verbatim>\<open>val()\<close> is a plain keyed mapping with
  at least one key. \<^verbatim>\<open>numChildren()\<close> is the number of keys when \<^verbatim>\<open>val()\<close> is a plain
  keyed mapping (its keys are distinct) and 0 otherwise. When \<^verbatim>\<open>val()\<close> is an array, even
  a non-empty one, \<^verbatim>\<open>hasChildren()\<close> is false and \<^verbatim>\<open>numChildren()\<close> is 0.
\<close>

theorem children_only_of_mappings:
  "(hasChildren U s \<longleftrightarrow> (\<exists>kvs. val U s = JObj kvs \<and> kvs \<noteq> [])) \<and>
   (case val U s of
      JObj kvs \<Rightarrow> distinct (map fst kvs) \<and> numChildren U s = length kvs
    | JArr xs \<Rightarrow> \<not> hasChildren U s \<and> numChildren U s = 0
    | _ \<Rightarrow> \<not> hasChildren U s \<and> numChildren U s = 0)"
  using hasChildren_iff [of U s] numChildren_eq [of U s] val_keys_distinct [of U s]
  by (cases "val U s") simp_all

theorem children_only_of_mappings_witness:
  "val spec_utils (child spec_utils array_root (Some ''list'')) =
     JArr [Some (JStr ''a''), Some (JStr ''b'')] \<and>
   \<not> hasChildren spec_utils (child spec_utils array_root (Some ''list'')) \<and>
   numChildren spec_utils (child spec_utils array_root (Some ''list'')) = 0 \<and>
   hasChildren spec_utils array_root \<and> numChildren spec_utils array_root = 3"
  using children_only_of_mappings [of spec_utils "child spec_utils array_root (Some ''list'')"]
    children_only_of_mappings [of spec_utils array_root]
  by (simp add: array_root_list array_root_val)

lemma foldl_log: "foldl (\<lambda>w k. w @ [g k]) acc ks = acc @ map g ks"
  by (induction ks arbitrary: acc) simp_all

text \<open>
  C8. \<^verbatim>\<open>forEach(action)\<close> returns false after it has run the action on
  \<^verbatim>\<open>child(key)\<close> for the keys of \<^verbatim>\<open>val()\<close>, one call per key, in the order of the
  mapping, when \<^verbatim>\<open>val()\<close> is a plain keyed mapping; otherwise it runs no action. What the
  action returns has no influence: for an action that records the snapshot it is given
  and answers \<open>f x\<close>, the record is the list of the children whatever \<open>f\<close> is.
\<close>

theorem forEach_visits_every_key:
  "forEach U s action w =
     (False,
      foldl (\<lambda>w k. snd (action (child U s (Some k)) w)) w
        (case val U s of JObj kvs \<Rightarrow> map fst kvs | _ \<Rightarrow> [])) \<and>
   forEach U s (\<lambda>x visited. (f x, visited @ [x])) [] =
     (False,
      case val U s of JObj kvs \<Rightarrow> map (\<lambda>k. child U s (Some k)) (map fst kvs) | _ \<Rightarrow> []) \<and>
   distinct (case val U s of JObj kvs \<Rightarrow> map fst kvs | _ \<Rightarrow> [])"
  using val_keys_distinct [of U s]
  by (cases "val U s") (simp_all add: forEach_def Let_def isPlainObject_def keys_def foldl_log)

theorem forEach_visits_every_key_witness:
  "forEach spec_utils array_root (\<lambda>x visited. (True, visited @ [x])) [] =
     (False, [child spec_utils array_root (Some ''list''),
              child spec_utils array_root (Some ''none''),
              child spec_utils array_root (Some ''name'')]) \<and>
   forEach spec_utils (child spec_utils array_root (Some ''list''))
       (\<lambda>x visited. (False, visited @ [x])) [] = (False, [])"
  using forEach_visits_every_key [of spec_utils array_root "\<lambda>x visited. (True, visited @ [x])" "[]" "\<lambda>x. True"]
    forEach_visits_every_key [of spec_utils "child spec_utils array_root (Some ''list'')"
       "\<lambda>x visited. (False, visited @ [x])" "[]" "\<lambda>x. False"]
  by (simp add: array_root_list array_root_val)


lemma treeAt_nullish: "treeAt t (k # ks) = Some v \<Longrightarrow> t \<noteq> JNull \<and> t \<noteq> JUndefined"
  by (cases t) simp_all

lemma treeAt_baseGet: "treeAt t ps = Some v \<Longrightarrow> baseGet_walk t ps = v"
proof (induction t ps rule: treeAt.induct)
  case (1 t)
  then show ?case by simp
next
  case (2 kvs k ks)
  then show ?case by (auto simp: js_prop_def split: option.splits)
next
  case (3 xs k ks)
  have "k \<noteq> ''length''" using 3(2) by (auto simp: isArrayIndex_def integerRegExp_def isDigit_def split: if_splits)
  with 3 show ?case by (auto simp: js_prop_def arr_get_def split: option.splits if_splits)
qed simp_all

lemma treeAt_resolve:
  assumes "treeAt src parts = Some v" and "v \<noteq> JUndefined"
  shows "(if parts \<noteq> [] then lodash_get src parts JNull else src) = v"
proof (cases parts)
  case Nil
  with assms show ?thesis by simp
next
  case (Cons k ks)
  with assms(1) have "src \<noteq> JNull \<and> src \<noteq> JUndefined" using treeAt_nullish by blast
  then show ?thesis using treeAt_baseGet [OF assms(1)] assms(2) Cons
    by (simp add: lodash_get_def baseGet_def)
qed

lemma val_treeAt:
  assumes "treeAt (source s) (pathParts U (s_childPath s)) = Some v" and "v \<noteq> JUndefined"
  shows "val U s = checkAndConvertToArray v"
  using treeAt_resolve [OF assms] by (simp add: val_def Let_def cloneDeep_def)

text \<open>
  C10. When the selected source tree (the base for the previous view, the derived tree
  otherwise) holds an empty keyed mapping at the relative offset, \<^verbatim>\<open>val()\<close> is the empty
  mapping, neither an array nor null; \<^verbatim>\<open>exists()\<close> is true, \<^verbatim>\<open>hasChildren()\<close> is false
  and \<^verbatim>\<open>numChildren()\<close> is 0.
\<close>

theorem empty_mapping_stays_mapping:
  assumes "treeAt (source s) (pathParts U (s_childPath s)) = Some (JObj [])"
  shows "val U s = JObj [] \<and> exists U s \<and> \<not> hasChildren U s \<and> numChildren U s = 0"
proof -
  have v: "val U s = JObj []"
    using val_treeAt [OF assms] by (simp add: normalizer_empty_object)
  then show ?thesis
    by (simp add: exists_def hasChildren_def numChildren_def keys_def isPlainObject_def)
qed

theorem empty_mapping_stays_mapping_witness:
  "treeAt (source (child spec_utils array_root (Some ''none'')))
     (pathParts spec_utils (s_childPath (child spec_utils array_root (Some ''none'')))) =
     Some (JObj []) \<and>
   val spec_utils (child spec_utils array_root (Some ''none'')) = JObj [] \<and>
   exists spec_utils (child spec_utils array_root (Some ''none'')) \<and>
   \<not> hasChildren spec_utils (child spec_utils array_root (Some ''none'')) \<and>
   numChildren spec_utils (child spec_utils array_root (Some ''none'')) = 0"
proof -
  have h: "treeAt (source (child spec_utils array_root (Some ''none'')))
     (pathParts spec_utils (s_childPath (child spec_utils array_root (Some ''none'')))) =
     Some (JObj [])"
    by code_simp
  show ?thesis using empty_mapping_stays_mapping [OF h] h by simp
qed

lemma changed_dup: "changed U (dup U s p None) = changed U s"
  by (simp add: changed_def truthy_def)

text \<open>
  C3. \<^verbatim>\<open>changed()\<close> is true exactly when \<^verbatim>\<open>valAt\<close> finds a value other than
  \<^verbatim>\<open>undefined\<close> in the delta tree at the relative offset. It does not depend on the view
  flag: \<^verbatim>\<open>previous.changed()\<close>, \<^verbatim>\<open>current.changed()\<close> and \<^verbatim>\<open>changed()\<close> agree. For the
  snapshot built from base \<^verbatim>\<open>{a: 1}\<close> and delta \<^verbatim>\<open>{a: 2}\<close>, both views answer true at
  the child \<^verbatim>\<open>a\<close> and false at the sibling \<^verbatim>\<open>b\<close>.
\<close>

theorem changed_ignores_view:
  "(changed U s \<longleftrightarrow> valAt U (s_delta s) (s_childPath s) \<noteq> JUndefined) \<and>
   changed U (previous U s) = changed U (current U s) \<and>
   changed U (previous U s) = changed U s \<and>
   changed spec_utils (child spec_utils (previous spec_utils example_root) (Some ''a'')) \<and>
   changed spec_utils (child spec_utils (current spec_utils example_root) (Some ''a'')) \<and>
   \<not> changed spec_utils (child spec_utils (previous spec_utils example_root) (Some ''b'')) \<and>
   \<not> changed spec_utils (child spec_utils (current spec_utils example_root) (Some ''b''))"
proof -
  have "changed U (previous U s) = changed U s" "changed U (current U s) = changed U s"
    by (simp_all add: previous_def current_def changed_dup)
  moreover have "changed spec_utils (child spec_utils (previous spec_utils example_root) (Some ''a''))"
    by code_simp
  moreover have "changed spec_utils (child spec_utils (current spec_utils example_root) (Some ''a''))"
    by code_simp
  moreover have "\<not> changed spec_utils (child spec_utils (previous spec_utils example_root) (Some ''b''))"
    by code_simp
  moreover have "\<not> changed spec_utils (child spec_utils (current spec_utils example_root) (Some ''b''))"
    by code_simp
  ultimately show ?thesis by (simp add: changed_def)
qed

theorem changed_ignores_view_witness:
  "changed spec_utils (previous spec_utils (child spec_utils example_root (Some ''a''))) \<and>
   changed spec_utils (current spec_utils (child spec_utils example_root (Some ''a''))) \<and>
   valAt spec_utils (JObj [(''a'', JNum 2)]) (Some ''a'') = JNum 2"
proof -
  have "changed spec_utils (child spec_utils example_root (Some ''a''))" by code_simp
  moreover have "valAt spec_utils (JObj [(''a'', JNum 2)]) (Some ''a'') = JNum 2" by code_simp
  ultimately show ?thesis
    using changed_ignores_view [of spec_utils "child spec_utils example_root (Some ''a'')"]
    by blast
qed

section \<open>The resource check of the constructor\<close>

lemma stripPrefix_Some: "stripPrefix p s = Some r \<longleftrightarrow> s = p @ r"
  by (induction p s rule: stripPrefix.induct) auto

lemma takeWhile_segment:
  "list_all notSlash xs \<Longrightarrow> takeWhile notSlash (xs @ CHR ''/'' # ys) = xs"
  by (induction xs) (simp_all add: notSlash_def)

lemma dropWhile_segment:
  "list_all notSlash xs \<Longrightarrow> dropWhile notSlash (xs @ CHR ''/'' # ys) = CHR ''/'' # ys"
  by (induction xs) (simp_all add: notSlash_def)

lemma list_all_takeWhile: "list_all P (takeWhile P xs)"
  by (induction xs) simp_all

lemma matchHere_occurrence:
  "matchHere s = Some (project, instance, g) \<longleftrightarrow>
     (\<exists>rest. occurrence s project instance rest \<and> g = refGroup rest)"
proof
  assume m: "matchHere s = Some (project, instance, g)"
  from m obtain r1 where r1: "s = ''projects/'' @ r1"
    by (auto simp: matchHere_def stripPrefix_Some simp del: stripPrefix.simps split: option.splits)
  then have s1: "stripPrefix ''projects/'' s = Some r1"
    by (simp only: stripPrefix_Some)
  from m s1 have p: "takeWhile notSlash r1 \<noteq> []" "project = takeWhile notSlash r1"
    by (auto simp: matchHere_def simp del: stripPrefix.simps split: option.splits if_splits)
  from m s1 p obtain r2 where r2: "dropWhile notSlash r1 = ''/instances/'' @ r2"
    by (auto simp: matchHere_def stripPrefix_Some simp del: stripPrefix.simps
        split: option.splits if_splits)
  then have s2: "stripPrefix ''/instances/'' (dropWhile notSlash r1) = Some r2"
    by (simp only: stripPrefix_Some)
  from m s1 s2 p have i: "takeWhile notSlash r2 \<noteq> []" "instance = takeWhile notSlash r2"
    by (auto simp: matchHere_def simp del: stripPrefix.simps split: option.splits if_splits)
  from m s1 s2 p i obtain r3 where r3: "dropWhile notSlash r2 = ''/refs'' @ r3"
    by (auto simp: matchHere_def stripPrefix_Some simp del: stripPrefix.simps
        split: option.splits if_splits)
  then have s3: "stripPrefix ''/refs'' (dropWhile notSlash r2) = Some r3"
    by (simp only: stripPrefix_Some)
  from m s1 s2 s3 p i have g: "g = refGroup r3"
    by (auto simp: matchHere_def simp del: stripPrefix.simps split: option.splits if_splits)
  have "r1 = takeWhile notSlash r1 @ dropWhile notSlash r1" by simp
  then have e1: "r1 = project @ ''/instances/'' @ r2" using p(2) r2 by simp
  have "r2 = takeWhile notSlash r2 @ dropWhile notSlash r2" by simp
  then have e2: "r2 = instance @ ''/refs'' @ r3" using i(2) r3 by simp
  have "s = ''projects/'' @ project @ ''/instances/'' @ instance @ ''/refs'' @ r3"
    by (subst r1, subst e1, subst e2) (rule refl)
  moreover have "list_all notSlash project" "list_all notSlash instance"
    unfolding p(2) i(2) by (rule list_all_takeWhile)+
  moreover have "project \<noteq> []" "instance \<noteq> []"
    using p i by simp_all
  ultimately have "occurrence s project instance r3"
    unfolding occurrence_def by blast
  with g show "\<exists>rest. occurrence s project instance rest \<and> g = refGroup rest" by blast
next
  assume "\<exists>rest. occurrence s project instance rest \<and> g = refGroup rest"
  then obtain rest where o: "occurrence s project instance rest" and g: "g = refGroup rest"
    by blast
  let ?r2 = "instance @ ''/refs'' @ rest"
  let ?r1 = "project @ ''/instances/'' @ ?r2"
  from o have s: "s = ''projects/'' @ ?r1" and pn: "project \<noteq> []" and pa: "list_all notSlash project"
    and inn: "instance \<noteq> []" and ia: "list_all notSlash instance"
    by (simp_all add: occurrence_def)
  have s1: "stripPrefix ''projects/'' s = Some ?r1" using s by (simp only: stripPrefix_Some)
  have t1: "takeWhile notSlash ?r1 = project"
    using takeWhile_segment [OF pa, of "''instances/'' @ ?r2"] by simp
  have d1: "dropWhile notSlash ?r1 = ''/instances/'' @ ?r2"
    using dropWhile_segment [OF pa, of "''instances/'' @ ?r2"] by simp
  have s2: "stripPrefix ''/instances/'' (dropWhile notSlash ?r1) = Some ?r2"
    unfolding d1 by (simp only: stripPrefix_Some)
  have t2: "takeWhile notSlash ?r2 = instance"
    using takeWhile_segment [OF ia, of "''refs'' @ rest"] by simp
  have d2: "dropWhile notSlash ?r2 = ''/refs'' @ rest"
    using dropWhile_segment [OF ia, of "''refs'' @ rest"] by simp
  have s3: "stripPrefix ''/refs'' (dropWhile notSlash ?r2) = Some rest"
    unfolding d2 by (simp only: stripPrefix_Some)
  show "matchHere s = Some (project, instance, g)"
    unfolding matchHere_def s1 option.case t1 s2 t2 s3 using pn inn g by simp
qed


lemma resourceMatch_leftmost:
  "resourceMatch r = Some m \<longleftrightarrow>
     (\<exists>n\<le>length r. matchHere (drop n r) = Some m \<and> (\<forall>k<n. matchHere (drop k r) = None))"
proof (induction r)
  case Nil
  then show ?case by simp
next
  case (Cons c cs)
  show ?case
  proof (cases "matchHere (c # cs)")
    case (Some m')
    have "(\<exists>n\<le>length (c # cs). matchHere (drop n (c # cs)) = Some m \<and>
            (\<forall>k<n. matchHere (drop k (c # cs)) = None)) \<longleftrightarrow> m' = m"
    proof
      assume "\<exists>n\<le>length (c # cs). matchHere (drop n (c # cs)) = Some m \<and>
            (\<forall>k<n. matchHere (drop k (c # cs)) = None)"
      then obtain n where n: "matchHere (drop n (c # cs)) = Some m"
        "\<forall>k<n. matchHere (drop k (c # cs)) = None" by blast
      have "n = 0"
      proof (rule ccontr)
        assume "n \<noteq> 0"
        then have "matchHere (drop 0 (c # cs)) = None" using n(2) by blast
        with Some show False by simp
      qed
      with n(1) Some show "m' = m" by simp
    next
      assume "m' = m"
      with Some have "matchHere (drop 0 (c # cs)) = Some m \<and>
            (\<forall>k<0. matchHere (drop k (c # cs)) = None)" by simp
      then show "\<exists>n\<le>length (c # cs). matchHere (drop n (c # cs)) = Some m \<and>
            (\<forall>k<n. matchHere (drop k (c # cs)) = None)" by blast
    qed
    with Some show ?thesis by simp
  next
    case None
    have "(\<exists>n\<le>length (c # cs). matchHere (drop n (c # cs)) = Some m \<and>
            (\<forall>k<n. matchHere (drop k (c # cs)) = None)) \<longleftrightarrow>
          (\<exists>n\<le>length cs. matchHere (drop n cs) = Some m \<and>
            (\<forall>k<n. matchHere (drop k cs) = None))" (is "?L \<longleftrightarrow> ?R")
    proof
      assume ?L
      then obtain n where n: "n \<le> length (c # cs)" "matchHere (drop n (c # cs)) = Some m"
        "\<forall>k<n. matchHere (drop k (c # cs)) = None" by blast
      from n(2) None obtain n' where n': "n = Suc n'" by (cases n) simp_all
      have "\<forall>k<n'. matchHere (drop k cs) = None"
      proof (intro allI impI)
        fix k assume "k < n'"
        then have "Suc k < n" using n' by simp
        with n(3) have "matchHere (drop (Suc k) (c # cs)) = None" by blast
        then show "matchHere (drop k cs) = None" by simp
      qed
      with n n' show ?R by auto
    next
      assume ?R
      then obtain n where n: "n \<le> length cs" "matchHere (drop n cs) = Some m"
        "\<forall>k<n. matchHere (drop k cs) = None" by blast
      have "\<forall>k<Suc n. matchHere (drop k (c # cs)) = None"
      proof (intro allI impI)
        fix k assume k: "k < Suc n"
        show "matchHere (drop k (c # cs)) = None"
        proof (cases k)
          case 0
          with None show ?thesis by simp
        next
          case (Suc k')
          with k n(3) show ?thesis by simp
        qed
      qed
      moreover have "Suc n \<le> length (c # cs)" "matchHere (drop (Suc n) (c # cs)) = Some m"
        using n by simp_all
      ultimately show ?L by blast
    qed
    with None Cons show ?thesis by simp
  qed
qed

lemma occursAt_matchHere:
  "occursAt r n project \<longleftrightarrow>
     n \<le> length r \<and> (\<exists>instance g. matchHere (drop n r) = Some (project, instance, g))"
  unfolding occursAt_def using matchHere_occurrence [of "drop n r" project] by blast

lemma not_occursAt_matchHere:
  "n \<le> length r \<Longrightarrow> (\<forall>p. \<not> occursAt r n p) \<longleftrightarrow> matchHere (drop n r) = None"
proof -
  assume n: "n \<le> length r"
  show ?thesis
  proof (cases "matchHere (drop n r)")
    case None
    then show ?thesis by (simp add: occursAt_matchHere)
  next
    case (Some m)
    obtain p i g where "m = (p, i, g)" by (cases m)
    with Some n have "occursAt r n p" using occursAt_matchHere by blast
    with Some show ?thesis by auto
  qed
qed

lemma resourceMatch_leftmostProject:
  "(\<exists>instance g. resourceMatch r = Some (project, instance, g)) \<longleftrightarrow> leftmostProject r project"
proof
  assume "\<exists>instance g. resourceMatch r = Some (project, instance, g)"
  then obtain inst g n where n: "n \<le> length r"
    "matchHere (drop n r) = Some (project, inst, g)"
    "\<forall>k<n. matchHere (drop k r) = None"
    using resourceMatch_leftmost by blast
  have "occursAt r n project" using n(1,2) occursAt_matchHere by blast
  moreover have "\<forall>m p. m < n \<longrightarrow> \<not> occursAt r m p"
  proof (intro allI impI)
    fix m p assume "m < n"
    then have "m \<le> length r" "matchHere (drop m r) = None" using n(1,3) by simp_all
    then show "\<not> occursAt r m p" using not_occursAt_matchHere by blast
  qed
  ultimately show "leftmostProject r project" unfolding leftmostProject_def by blast
next
  assume "leftmostProject r project"
  then obtain n where n: "occursAt r n project" "\<forall>m p. m < n \<longrightarrow> \<not> occursAt r m p"
    unfolding leftmostProject_def by blast
  from n(1) obtain inst g where m: "n \<le> length r"
    "matchHere (drop n r) = Some (project, inst, g)"
    using occursAt_matchHere by blast
  have "\<forall>k<n. matchHere (drop k r) = None"
  proof (intro allI impI)
    fix k assume k: "k < n"
    then have "k \<le> length r" using m(1) by simp
    moreover have "\<forall>p. \<not> occursAt r k p" using n(2) k by blast
    ultimately show "matchHere (drop k r) = None" using not_occursAt_matchHere by blast
  qed
  with m have "resourceMatch r = Some (project, inst, g)"
    using resourceMatch_leftmost by blast
  then show "\<exists>instance g. resourceMatch r = Some (project, instance, g)" by blast
qed

lemma accepted_iff:
  "\<not> isl (new_DeltaSnapshot U apps (Some ev)) \<longleftrightarrow>
     (\<exists>instance g. resourceMatch (resource ev) = Some (''_'', instance, g))"
  by (auto simp: new_DeltaSnapshot_def split: option.splits)

lemma conforms_occurrence:
  assumes "conformsToGrammar s"
  shows "\<exists>instance rest. occurrence s ''_'' instance rest"
proof -
  from assms obtain r where r: "s = ''projects/_/instances/'' @ r"
    by (auto simp: conformsToGrammar_def stripPrefix_Some simp del: stripPrefix.simps
        split: option.splits)
  then have s1: "stripPrefix ''projects/_/instances/'' s = Some r"
    by (simp only: stripPrefix_Some)
  from assms s1 have i: "takeWhile notSlash r \<noteq> []"
    by (auto simp: conformsToGrammar_def simp del: stripPrefix.simps split: option.splits)
  from assms s1 obtain t where t: "dropWhile notSlash r = ''/refs'' @ t"
    by (auto simp: conformsToGrammar_def stripPrefix_Some simp del: stripPrefix.simps
        split: option.splits)
  have "r = takeWhile notSlash r @ dropWhile notSlash r" by simp
  then have e: "r = takeWhile notSlash r @ ''/refs'' @ t" using t by simp
  have "s = ''projects/'' @ ''_'' @ ''/instances/'' @ takeWhile notSlash r @ ''/refs'' @ t"
    by (subst r, subst e) simp
  then have "occurrence s ''_'' (takeWhile notSlash r) t"
    unfolding occurrence_def using i by (simp add: list_all_takeWhile notSlash_def)
  then show ?thesis by blast
qed

lemma conforms_leftmost:
  assumes "conformsToGrammar s"
  shows "leftmostProject s ''_''"
proof -
  from conforms_occurrence [OF assms] have "occursAt s 0 ''_''"
    by (simp add: occursAt_def)
  then show ?thesis unfolding leftmostProject_def by blast
qed

text \<open>
  C4, amended. Constructing a snapshot from an envelope fails exactly when the resource
  string has no occurrence of the pattern
  \<^verbatim>\<open>projects/<project>/instances/<instance>/refs\<close> at any position, or the project of
  the leftmost occurrence is not \<^verbatim>\<open>_\<close>. Every resource that conforms to the grammar
  \<^verbatim>\<open>projects/_/instances/<id>/refs(/<path>)?\<close> is accepted. The match is not anchored,
  so a resource with other text before or after such an occurrence is accepted as well.
\<close>

theorem resource_check:
  "(isl (new_DeltaSnapshot U apps (Some ev) :: error + ('apps, 'auth, 'ref) deltaSnapshot) \<longleftrightarrow>
      \<not> leftmostProject (resource ev) ''_'') \<and>
   (conformsToGrammar (resource ev) \<longrightarrow>
      \<not> isl (new_DeltaSnapshot U apps (Some ev) :: error + ('apps, 'auth, 'ref) deltaSnapshot))"
  using accepted_iff [of U apps ev] resourceMatch_leftmostProject [of "resource ev" "''_''"]
    conforms_leftmost [of "resource ev"]
  by blast

text \<open>
  The claim as stated fails: this resource does not conform to the grammar, and the
  constructor accepts it.
\<close>

theorem resource_check_counterexample:
  "\<not> conformsToGrammar (resource junk_event) \<and>
   (new_DeltaSnapshot spec_utils () (Some junk_event)
      :: error + (unit, unit, unit) deltaSnapshot) =
     Inr \<lparr>s_adminRef = None, s_apps = (), s_ref = None, s_path = Some [],
          s_data = JNull, s_delta = JNull, s_newData = JNull, s_auth = Some (),
          s_childPath = None, s_isPrevious = False\<rparr>"
  by code_simp

theorem resource_check_witness:
  "conformsToGrammar (resource example_event) \<and>
   \<not> isl (new_DeltaSnapshot spec_utils () (Some example_event)
            :: error + (unit, unit, unit) deltaSnapshot) \<and>
   leftmostProject (resource example_event) ''_'' \<and>
   leftmostProject (resource junk_event) ''_'' \<and>
   \<not> leftmostProject ''projects/p/instances/db/refs/foo'' ''_''"
proof -
  have c: "conformsToGrammar (resource example_event)" by code_simp
  have a: "\<not> isl (new_DeltaSnapshot spec_utils () (Some junk_event)
            :: error + (unit, unit, unit) deltaSnapshot)" by code_simp
  have r: "isl (new_DeltaSnapshot spec_utils ()
                 (Some \<lparr>resource = ''projects/p/instances/db/refs/foo'', auth = (),
                        data_data = JNull, data_delta = JNull\<rparr>)
            :: error + (unit, unit, unit) deltaSnapshot)" by code_simp
  have e1: "leftmostProject (resource example_event) ''_'' \<and>
      \<not> isl (new_DeltaSnapshot spec_utils () (Some example_event)
            :: error + (unit, unit, unit) deltaSnapshot)"
    using c resource_check [where U = spec_utils and apps = "()" and ev = example_event
        and 'ref = unit] by blast
  have e2: "leftmostProject (resource junk_event) ''_''"
    using a resource_check [where U = spec_utils and apps = "()" and ev = junk_event
        and 'ref = unit] by blast
  have e3: "\<not> leftmostProject ''projects/p/instances/db/refs/foo'' ''_''"
    using r resource_check [where U = spec_utils and apps = "()"
        and ev = "\<lparr>resource = ''projects/p/instances/db/refs/foo'', auth = (),
                   data_data = JNull, data_delta = JNull\<rparr>" and 'ref = unit]
    by simp
  show ?thesis using c e1 e2 e3 by blast
qed

section \<open>The key of a snapshot\<close>

lemma segments_append:
  "list_all notSlash x \<Longrightarrow> segments acc (x @ rest) = segments (acc @ x) rest"
  by (induction x arbitrary: acc) (simp_all add: notSlash_def)

lemma segments_good:
  "list_all notSlash acc \<Longrightarrow> list_all goodSegment (segments acc s)"
  by (induction acc s rule: segments.induct) (simp_all add: goodSegment_def notSlash_def)

lemma segments_join:
  "list_all goodSegment xs \<Longrightarrow> segments [] (joinSegments xs) = xs"
proof (induction xs rule: joinSegments.induct)
  case 1
  then show ?case by simp
next
  case (2 x)
  then show ?case using segments_append [of x "[]" "[]"] by (simp add: goodSegment_def)
next
  case (3 x y zs)
  then have "segments [] (x @ CHR ''/'' # joinSegments (y # zs)) =
      segments x (CHR ''/'' # joinSegments (y # zs))"
    using segments_append [of x "[]" "CHR ''/'' # joinSegments (y # zs)"]
    by (simp add: goodSegment_def)
  with 3 show ?case by (simp add: goodSegment_def)
qed

lemma spec_pathParts_good: "list_all goodSegment (spec_pathParts p)"
  by (cases p) (simp_all add: spec_pathParts_def segments_good)

lemma spec_utils_round_trip:
  "pathParts spec_utils (Some (normalizePath spec_utils p)) = pathParts spec_utils p \<and>
   pathParts spec_utils (Some (joinPath spec_utils a b)) =
     pathParts spec_utils a @ pathParts spec_utils b \<and>
   pathParts spec_utils (Some (CHR ''/'' # q)) = pathParts spec_utils (Some q) \<and>
   pathParts spec_utils (Some (q @ ''/'')) = pathParts spec_utils (Some q)"
proof -
  have 1: "spec_pathParts (Some (spec_normalizePath p)) = spec_pathParts p"
    unfolding spec_normalizePath_def
    using segments_join [OF spec_pathParts_good [of p]] by (simp add: spec_pathParts_def)
  have "list_all goodSegment (spec_pathParts a @ spec_pathParts b)"
    using spec_pathParts_good [of a] spec_pathParts_good [of b] by simp
  then have 2: "spec_pathParts (Some (spec_joinPath a b)) = spec_pathParts a @ spec_pathParts b"
    unfolding spec_joinPath_def using segments_join by (simp add: spec_pathParts_def)
  have t: "segments acc (q @ ''/'') = segments acc q" for acc
    by (induction acc q rule: segments.induct) simp_all
  show ?thesis using 1 2 t by (simp add: spec_utils_def spec_pathParts_def)
qed

lemma joinSegments_snoc: "zs \<noteq> [] \<Longrightarrow> joinSegments (zs @ [x]) = joinSegments zs @ CHR ''/'' # x"
  by (induction zs rule: joinSegments.induct) simp_all

lemma segments_single: "goodSegment x \<Longrightarrow> segments [] x = [x]"
  using segments_append [of x "[]" "[]"] by (simp add: goodSegment_def)

lemma last_segment:
  "goodSegment x \<Longrightarrow>
   segments acc (w @ CHR ''/'' # x) \<noteq> [] \<and> last (segments acc (w @ CHR ''/'' # x)) = x"
  by (induction w arbitrary: acc) (simp_all add: segments_single)

lemma spec_key_of_child:
  assumes "pathParts spec_utils (Some P) \<noteq> []"
    and "2 \<le> length (pathParts spec_utils (s_childPath s)) + length (pathParts spec_utils (Some P))"
  shows "key spec_utils (child spec_utils s (Some P)) = Some (last (pathParts spec_utils (Some P)))"
proof -
  let ?a = "spec_pathParts (s_childPath s)" and ?b = "spec_pathParts (Some P)"
  from assms(1) have b: "?b \<noteq> []" by (simp add: spec_utils_def)
  then have P: "P \<noteq> []" by (auto simp: spec_pathParts_def)
  define x where "x = last ?b"
  define zs where "zs = ?a @ butlast ?b"
  have split: "?a @ ?b = zs @ [x]" using b by (simp add: zs_def x_def)
  have "length zs + 1 = length ?a + length ?b" using b by (simp add: zs_def)
  with assms(2) have zs: "zs \<noteq> []" by (auto simp: spec_utils_def)
  have "x \<in> set ?b" using b by (simp add: x_def)
  then have good: "goodSegment x" using spec_pathParts_good [of "Some P"]
    by (simp add: list_all_iff)
  have cp: "s_childPath (child spec_utils s (Some P)) = Some (joinSegments zs @ CHR ''/'' # x)"
    using P split joinSegments_snoc [OF zs, of x]
    by (simp add: child_def truthy_def spec_utils_def spec_joinPath_def)
  have fp: "fullPath (child spec_utils s (Some P)) =
      (orEmpty (s_path s) @ joinSegments zs) @ CHR ''/'' # x"
    using cp P by (simp add: fullPath_def Let_def orEmpty_def child_def truthy_def)
  have "segments [] ((orEmpty (s_path s) @ joinSegments zs) @ CHR ''/'' # x) \<noteq> [] \<and>
        last (segments [] ((orEmpty (s_path s) @ joinSegments zs) @ CHR ''/'' # x)) = x"
    using last_segment [OF good] by blast
  moreover have "x \<noteq> []" using good by (simp add: goodSegment_def)
  ultimately have "key spec_utils (child spec_utils s (Some P)) = Some x"
    unfolding key_def fp
    by (cases "segments [] ((orEmpty (s_path s) @ joinSegments zs) @ CHR ''/'' # x)")
      (simp_all add: spec_utils_def spec_pathParts_def)
  then show ?thesis by (simp add: x_def spec_utils_def)
qed

text \<open>
  With these primitives the key of \<^verbatim>\<open>child(P)\<close> is the last segment of \<open>P\<close> when the
  base path of the envelope is empty, and when the offset of the child has two segments
  or more.
\<close>

lemma spec_key_of_child_at_root:
  assumes "pathParts spec_utils (Some P) \<noteq> []" and "orEmpty (s_path s) = []"
  shows "key spec_utils (child spec_utils s (Some P)) = Some (last (pathParts spec_utils (Some P)))"
proof -
  let ?a = "spec_pathParts (s_childPath s)" and ?b = "spec_pathParts (Some P)"
  from assms(1) have b: "?b \<noteq> []" by (simp add: spec_utils_def)
  then have P: "P \<noteq> []" by (auto simp: spec_pathParts_def)
  have good: "list_all goodSegment (?a @ ?b)"
    using spec_pathParts_good [of "s_childPath s"] spec_pathParts_good [of "Some P"] by simp
  then have sj: "segments [] (joinSegments (?a @ ?b)) = ?a @ ?b" by (rule segments_join)
  have ne: "joinSegments (?a @ ?b) \<noteq> []"
  proof
    assume "joinSegments (?a @ ?b) = []"
    with sj have "?a @ ?b = []" by simp
    with b show False by simp
  qed
  have fp: "fullPath (child spec_utils s (Some P)) = joinSegments (?a @ ?b)"
    using P ne assms(2)
    by (simp add: fullPath_def Let_def child_def truthy_def orEmpty_def spec_utils_def
        spec_joinPath_def)
  have "last (?a @ ?b) = last ?b" using b by simp
  moreover have "last ?b \<in> set ?b" using b by simp
  then have "goodSegment (last ?b)" using spec_pathParts_good [of "Some P"]
    by (simp add: list_all_iff)
  then have "last ?b \<noteq> []" by (simp add: goodSegment_def)
  ultimately have "key spec_utils (child spec_utils s (Some P)) = Some (last ?b)"
    unfolding key_def fp using sj b
    by (cases "?a @ ?b") (simp_all add: spec_utils_def spec_pathParts_def)
  then show ?thesis by (simp add: spec_utils_def)
qed

text \<open>
  C9. The claim: the key of \<^verbatim>\<open>child(P)\<close> is the last segment of \<open>P\<close>. The first example
  envelope is at the reference \<^verbatim>\<open>foo\<close> and its derived tree holds 2 under \<^verbatim>\<open>a\<close>. The
  snapshot \<^verbatim>\<open>child('a')\<close> reads that value, the node \<^verbatim>\<open>foo/a\<close>, but
  \<^verbatim>\<open>_fullPath()\<close> puts nothing between the base path and the offset: it is
  \<^verbatim>\<open>fooa\<close>, and so is the key. \<^verbatim>\<open>child('')\<close> has the key of the receiver.
\<close>

theorem key_fuses_base_path_and_offset:
  "new_DeltaSnapshot spec_utils () (Some example_event) = Inr example_root \<and>
   pathParts spec_utils (Some ''a'') = [''a''] \<and>
   val spec_utils (child spec_utils example_root (Some ''a'')) = JNum 2 \<and>
   fullPath (child spec_utils example_root (Some ''a'')) = ''fooa'' \<and>
   key spec_utils (child spec_utils example_root (Some ''a'')) = Some ''fooa'' \<and>
   key spec_utils (child spec_utils example_root (Some ''bar'')) = Some ''foobar'' \<and>
   key spec_utils (child spec_utils example_root (Some ''x/bar'')) = Some ''bar'' \<and>
   key spec_utils (child spec_utils example_root (Some [])) = key spec_utils example_root \<and>
   key spec_utils example_root = Some ''foo''"
  by code_simp

section \<open>The normalizer on a mapping that is iterated by its keys\<close>

text \<open>
  For a mapping that lodash does not take for an array (no own \<^verbatim>\<open>length\<close> holding a
  valid length) the normalizer does what the specification describes. The children are
  normalized and keep their keys and their order. If every key is an integer literal and
  the largest is below twice the number of keys, the result is the array of length
  largest key plus one whose position \<open>i\<close> holds the normalized child keyed by the
  decimal string of \<open>i\<close>, or a hole when there is no such key; otherwise the result is
  the mapping of the normalized children.
\<close>

lemma integerRegExp_cases: "integerRegExp k \<longleftrightarrow> k = ''0'' \<or> posDecimal k"
  by (cases k) (auto simp: integerRegExp_def posDecimal_def isDigit_def)

lemma Number_snoc: "Number (ks @ [c]) = 10 * Number ks + digitVal c"
  by (simp add: Number_def)

lemma digit_round_trip: "isDigit c \<Longrightarrow> digitVal c < 10 \<and> digitChar (digitVal c) = c"
  by (auto simp: isDigit_def digitVal_def digitChar_def)

lemma digitVal_zero: "isDigit c \<Longrightarrow> digitVal c = 0 \<longleftrightarrow> c = CHR ''0''"
  by (auto simp: isDigit_def digitVal_def)

lemma digitChar_round_trip:
  assumes "d < 10"
  shows "isDigit (digitChar d) \<and> digitVal (digitChar d) = d \<and> (digitChar d = CHR ''0'' \<longleftrightarrow> d = 0)"
proof -
  from assms have "d \<in> {0, 1, 2, 3, 4, 5, 6, 7, 8, 9}" by auto
  then show ?thesis
    by (auto simp: isDigit_def digitVal_def digitChar_def)
qed

lemma posDecimal_snoc:
  "posDecimal (ks @ [c]) \<longleftrightarrow> isDigit c \<and> (if ks = [] then c \<noteq> CHR ''0'' else posDecimal ks)"
  by (cases ks) (auto simp: posDecimal_def)

lemma posDecimal_positive: "posDecimal k \<Longrightarrow> 0 < Number k"
proof (induction k rule: rev_induct)
  case Nil
  then show ?case by (simp add: posDecimal_def)
next
  case (snoc c ks)
  show ?case
  proof (cases "ks = []")
    case True
    with snoc(2) have "isDigit c" "c \<noteq> CHR ''0''" by (simp_all add: posDecimal_def)
    then have "digitVal c \<noteq> 0" using digitVal_zero by blast
    with True show ?thesis by (simp add: Number_def)
  next
    case False
    with snoc show ?thesis by (simp add: posDecimal_snoc Number_snoc)
  qed
qed

lemma posDecimal_indexKey: "posDecimal k \<Longrightarrow> indexKey (Number k) = k"
proof (induction k rule: rev_induct)
  case Nil
  then show ?case by (simp add: posDecimal_def)
next
  case (snoc c ks)
  then have c: "isDigit c" by (simp add: posDecimal_snoc)
  show ?case
  proof (cases "ks = []")
    case True
    then show ?thesis using digit_round_trip [OF c]
      by (subst indexKey.simps) (simp add: Number_def)
  next
    case False
    with snoc have ks: "posDecimal ks" "indexKey (Number ks) = ks"
      by (simp_all add: posDecimal_snoc)
    have "\<not> 10 * Number ks + digitVal c < 10" using posDecimal_positive [OF ks(1)] by simp
    moreover have "(10 * Number ks + digitVal c) div 10 = Number ks"
      "(10 * Number ks + digitVal c) mod 10 = digitVal c"
      using digit_round_trip [OF c] by simp_all
    ultimately show ?thesis using ks(2) digit_round_trip [OF c]
      by (subst indexKey.simps) (simp add: Number_snoc)
  qed
qed

lemma integerRegExp_indexKey: "integerRegExp k \<Longrightarrow> indexKey (Number k) = k"
proof -
  assume "integerRegExp k"
  then consider "k = ''0''" | "posDecimal k" using integerRegExp_cases by blast
  then show ?thesis
  proof cases
    case 1
    have "Number ''0'' = 0" by (simp add: Number_def digitVal_def)
    moreover have "indexKey 0 = ''0''" by (subst indexKey.simps) (simp add: digitChar_def)
    ultimately show ?thesis using 1 by simp
  next
    case 2
    then show ?thesis by (rule posDecimal_indexKey)
  qed
qed

lemma indexKey_posDecimal: "0 < n \<Longrightarrow> posDecimal (indexKey n) \<and> Number (indexKey n) = n"
proof (induction n rule: indexKey.induct)
  case (1 n)
  show ?case
  proof (cases "n < 10")
    case True
    then show ?thesis using digitChar_round_trip [OF True] 1(2)
      by (subst (1 2) indexKey.simps) (simp add: posDecimal_def Number_def)
  next
    case False
    then have "0 < n div 10" by simp
    with 1 False have ih: "posDecimal (indexKey (n div 10))" "Number (indexKey (n div 10)) = n div 10"
      by simp_all
    have d: "n mod 10 < 10" by simp
    from ih(1) have ne: "indexKey (n div 10) \<noteq> []" by (simp add: posDecimal_def)
    show ?thesis using False ih ne digitChar_round_trip [OF d]
      by (subst (1 2) indexKey.simps) (simp add: posDecimal_snoc Number_snoc)
  qed
qed

lemma indexKey_integer: "integerRegExp (indexKey n) \<and> Number (indexKey n) = n"
proof (cases "n = 0")
  case True
  have "indexKey 0 = ''0''" by (subst indexKey.simps) (simp add: digitChar_def)
  then show ?thesis using True by (simp add: integerRegExp_def Number_def digitVal_def)
next
  case False
  then show ?thesis using indexKey_posDecimal [of n] integerRegExp_cases by simp
qed

lemma integer_key_number: "integerRegExp k \<Longrightarrow> Number k = i \<longleftrightarrow> k = indexKey i"
  using integerRegExp_indexKey indexKey_integer by auto

lemma jsOrdered_Cons: "jsOrdered (k # ks) \<Longrightarrow> jsOrdered ks"
  by (cases ks) simp_all

lemma jsOrdered_before_index:
  "jsOrdered (ks @ [k]) \<Longrightarrow> isArrayIndex k \<Longrightarrow> k' \<in> set ks \<Longrightarrow>
   isArrayIndex k' \<and> Number k' < Number k"
proof (induction ks arbitrary: k')
  case Nil
  then show ?case by simp
next
  case (Cons a ks)
  show ?case
  proof (cases ks)
    case Nil
    with Cons.prems show ?thesis by simp
  next
    case (Cons b bs)
    with Cons.prems(1) have o: "jsOrdered (ks @ [k])"
      "if isArrayIndex b then isArrayIndex a \<and> Number a < Number b else True"
      by simp_all
    have b: "isArrayIndex b \<and> Number b < Number k"
      using Cons.IH [OF o(1) Cons.prems(2), of b] Cons by simp
    with o(2) have a: "isArrayIndex a \<and> Number a < Number k" by simp
    show ?thesis
    proof (cases "k' = a")
      case True
      with a show ?thesis by simp
    next
      case False
      with Cons.prems(3) have "k' \<in> set ks" by simp
      then show ?thesis using Cons.IH [OF o(1) Cons.prems(2)] by simp
    qed
  qed
qed

lemma obj_insert_last:
  "jsOrdered (map fst ob @ [k]) \<Longrightarrow> obj_insert ob k v = ob @ [(k, v)]"
proof (induction ob)
  case Nil
  then show ?case by simp
next
  case (Cons p ps)
  obtain k' x where p: "p = (k', x)" by (cases p)
  from Cons.prems have o: "jsOrdered (map fst ps @ [k])"
    using jsOrdered_Cons [of "fst p" "map fst ps @ [k]"] by simp
  have n: "\<not> (isArrayIndex k \<and> (if isArrayIndex k' then Number k < Number k' else True))"
  proof
    assume h: "isArrayIndex k \<and> (if isArrayIndex k' then Number k < Number k' else True)"
    then have "isArrayIndex k' \<and> Number k' < Number k"
      using jsOrdered_before_index [OF Cons.prems, of k'] p by simp
    with h show False by simp
  qed
  have "obj_insert ((k', x) # ps) k v = (k', x) # obj_insert ps k v"
    using n by (simp only: obj_insert.simps if_False)
  then show ?case using Cons.IH [OF o] p by simp
qed

lemma jsOrdered_prefix: "jsOrdered (xs @ ys) \<Longrightarrow> jsOrdered xs"
proof (induction xs rule: jsOrdered.induct)
  case (3 k1 k2 ks)
  then show ?case by simp
qed simp_all

lemma obj_set_last:
  assumes "jsOrdered (map fst ob @ [k])" and "k \<notin> fst ` set ob"
  shows "obj_set ob k v = ob @ [(k, v)]"
  using assms by (simp add: obj_set_def obj_insert_last)

lemma loop_obj:
  assumes "jsOrdered (map fst (obj st) @ map fst es)"
    and "distinct (map fst (obj st) @ map fst es)"
  shows "obj (foldl (\<lambda>st entry. iteratee st (fst entry) (f (snd entry))) st es) =
           obj st @ map (\<lambda>entry. (fst entry, f (snd entry))) es"
  using assms
proof (induction es arbitrary: st)
  case Nil
  then show ?case by simp
next
  case (Cons e es)
  let ?st = "iteratee st (fst e) (f (snd e))"
  have o: "jsOrdered (map fst (obj st) @ [fst e])"
    using jsOrdered_prefix [of "map fst (obj st) @ [fst e]" "map fst es"] Cons.prems(1) by simp
  have d: "fst e \<notin> fst ` set (obj st)" using Cons.prems(2) by auto
  have ob: "obj ?st = obj st @ [(fst e, f (snd e))]"
    using obj_set_last [OF o d] by (simp add: iteratee_def)
  have "obj (foldl (\<lambda>st entry. iteratee st (fst entry) (f (snd entry))) ?st es) =
          obj ?st @ map (\<lambda>entry. (fst entry, f (snd entry))) es"
    using Cons.prems by (intro Cons.IH) (simp_all add: ob)
  then show ?case by (simp add: ob)
qed

lemma loop_counts:
  "numKeys (foldl (\<lambda>st entry. iteratee st (fst entry) (f (snd entry))) st es) =
     numKeys st + length es \<and>
   allIntegerKeys (foldl (\<lambda>st entry. iteratee st (fst entry) (f (snd entry))) st es) =
     (allIntegerKeys st \<and> list_all integerRegExp (map fst es))"
  by (induction es arbitrary: st) (auto simp: iteratee_def)

lemma loop_maxKey:
  "allIntegerKeys st \<Longrightarrow> list_all integerRegExp (map fst es) \<Longrightarrow>
   maxKey (foldl (\<lambda>st entry. iteratee st (fst entry) (f (snd entry))) st es) =
     foldl max (maxKey st) (map Number (map fst es))"
  by (induction es arbitrary: st) (simp_all add: iteratee_def)

lemma length_arr_set: "length (arr_set a i v) = max (length a) (Suc i)"
  by (auto simp: arr_set_def)

lemma slot_arr_set: "slot (arr_set a i v) j = (if j = i then Some v else slot a j)"
  by (auto simp: slot_def arr_set_def nth_append)

lemma toArray_snoc: "toArray (ob @ [(k, v)]) = arr_set (toArray ob) (Number k) v"
  by (simp add: toArray_def)

lemma length_toArray: "length (toArray ob) = foldl max 0 (map (\<lambda>p. Suc (Number (fst p))) ob)"
proof (induction ob rule: rev_induct)
  case Nil
  then show ?case by (simp add: toArray_def)
next
  case (snoc p ob)
  obtain k v where p: "p = (k, v)" by (cases p)
  show ?case using snoc by (simp add: p toArray_snoc length_arr_set)
qed

lemma foldl_max_Suc: "foldl max (Suc m) (map (\<lambda>p. Suc (g p)) xs) = Suc (foldl max m (map g xs))"
  by (induction xs arbitrary: m) simp_all

lemma length_toArray_nonempty:
  "ob \<noteq> [] \<Longrightarrow> length (toArray ob) = Suc (maxNumber (map fst ob))"
proof (cases ob)
  case Nil
  assume "ob \<noteq> []"
  with Nil show ?thesis by simp
next
  case (Cons p ps)
  have "foldl max 0 (map (\<lambda>p. Suc (Number (fst p))) (p # ps)) =
        foldl max (Suc (Number (fst p))) (map (\<lambda>p. Suc (Number (fst p))) ps)" by simp
  also have "\<dots> = Suc (foldl max (Number (fst p)) (map (\<lambda>p. Number (fst p)) ps))"
    by (rule foldl_max_Suc)
  finally show ?thesis using Cons
    by (simp add: length_toArray maxNumber_def comp_def)
qed

lemma slot_toArray:
  assumes "list_all integerRegExp (map fst ob)" and "distinct (map fst ob)"
  shows "slot (toArray ob) j = map_of ob (indexKey j)"
  using assms
proof (induction ob rule: rev_induct)
  case Nil
  then show ?case by (simp add: toArray_def slot_def)
next
  case (snoc p ob)
  obtain k v where p: "p = (k, v)" by (cases p)
  from snoc.prems p have k: "integerRegExp k" "k \<notin> fst ` set ob" by auto
  from snoc have ih: "slot (toArray ob) j = map_of ob (indexKey j)" by simp
  show ?case
  proof (cases "Number k = j")
    case True
    then have e: "k = indexKey j" using integer_key_number [OF k(1)] by simp
    then have "map_of ob (indexKey j) = None" using k(2) by (simp add: map_of_eq_None_iff)
    then show ?thesis using True e by (simp add: p toArray_snoc slot_arr_set map_add_def)
  next
    case False
    then have "k \<noteq> indexKey j" using integer_key_number [OF k(1)] by simp
    then show ?thesis using False ih
      by (cases "map_of ob (indexKey j)") (simp_all add: p toArray_snoc slot_arr_set map_add_def)
  qed
qed

lemma toArray_eq:
  assumes "list_all integerRegExp (map fst ob)" and "distinct (map fst ob)" and "ob \<noteq> []"
  shows "toArray ob = map (\<lambda>i. map_of ob (indexKey i)) [0 ..< Suc (maxNumber (map fst ob))]"
proof (rule nth_equalityI)
  show "length (toArray ob) =
      length (map (\<lambda>i. map_of ob (indexKey i)) [0 ..< Suc (maxNumber (map fst ob))])"
    using length_toArray_nonempty [OF assms(3)] by simp
next
  fix i assume i: "i < length (toArray ob)"
  then have "toArray ob ! i = slot (toArray ob) i" by (simp add: slot_def)
  also have "\<dots> = map_of ob (indexKey i)" by (rule slot_toArray [OF assms(1,2)])
  finally show "toArray ob ! i =
      map (\<lambda>i. map_of ob (indexKey i)) [0 ..< Suc (maxNumber (map fst ob))] ! i"
    using i length_toArray_nonempty [OF assms(3)] by (simp del: upt_Suc)
qed

lemma forEach_entries_plain:
  "\<not> isArrayLike (JObj kvs) \<Longrightarrow> forEach_entries (JObj kvs) = kvs"
  by (simp add: forEach_entries_def)

lemma normalizer_plain_mapping:
  assumes "\<not> isArrayLike (JObj kvs)" and "jsOrdered (map fst kvs)" and "distinct (map fst kvs)"
  shows "checkAndConvertToArray (JObj kvs) =
     (if list_all integerRegExp (map fst kvs) \<and> maxNumber (map fst kvs) < 2 * length kvs
      then JArr (map (\<lambda>i. map_of (map (\<lambda>(k, v). (k, checkAndConvertToArray v)) kvs) (indexKey i))
                  [0 ..< Suc (maxNumber (map fst kvs))])
      else JObj (map (\<lambda>(k, v). (k, checkAndConvertToArray v)) kvs))"
proof -
  let ?init = "\<lparr>obj = [], numKeys = 0, maxKey = 0, allIntegerKeys = True\<rparr>"
  let ?st = "foldl (\<lambda>st entry. iteratee st (fst entry) (checkAndConvertToArray (snd entry)))
               ?init kvs"
  let ?cs = "map (\<lambda>(k, v). (k, checkAndConvertToArray v)) kvs"
  have cs: "?cs = map (\<lambda>entry. (fst entry, checkAndConvertToArray (snd entry))) kvs"
    by (simp add: case_prod_unfold)
  have keys: "map fst ?cs = map fst kvs" by (simp add: case_prod_unfold comp_def)
  have ob: "obj ?st = ?cs"
    using loop_obj [of ?init kvs checkAndConvertToArray] assms(2,3) cs by simp
  have cnt: "numKeys ?st = length kvs"
    "allIntegerKeys ?st = list_all integerRegExp (map fst kvs)"
    using loop_counts [of checkAndConvertToArray ?init kvs] by simp_all
  have mx: "list_all integerRegExp (map fst kvs) \<Longrightarrow> maxKey ?st = maxNumber (map fst kvs)"
    using loop_maxKey [of ?init kvs checkAndConvertToArray] by (simp add: maxNumber_def)
  have unfold: "checkAndConvertToArray (JObj kvs) = finish ?st"
    using forEach_entries_plain [OF assms(1)]
    by (subst checkAndConvertToArray.simps) (simp add: isObject_def)
  show ?thesis
  proof (cases "list_all integerRegExp (map fst kvs) \<and> maxNumber (map fst kvs) < 2 * length kvs")
    case True
    then have ne: "?cs \<noteq> []" by auto
    have "list_all integerRegExp (map fst ?cs)" "distinct (map fst ?cs)"
      using True assms(3) by (simp_all only: keys)
    then have "toArray ?cs =
        map (\<lambda>i. map_of ?cs (indexKey i)) [0 ..< Suc (maxNumber (map fst ?cs))]"
      using ne by (rule toArray_eq)
    then have "finish ?st = JArr (map (\<lambda>i. map_of ?cs (indexKey i))
                  [0 ..< Suc (maxNumber (map fst kvs))])"
      using True cnt mx ob by (simp only: finish_def keys) simp
    with True unfold show ?thesis by simp
  next
    case False
    then have "finish ?st = JObj ?cs"
      using cnt mx ob by (auto simp: finish_def)
    with False unfold show ?thesis by simp
  qed
qed

section \<open>Reading below a string, and mappings with a length\<close>

text \<open>
  C6. The claim: a relative path that the tree does not contain reads as null and does
  not exist. In the third example envelope the base tree, and with it the derived tree,
  holds the string \<^verbatim>\<open>hello\<close> under \<^verbatim>\<open>name\<close>, so neither tree has anything at
  \<^verbatim>\<open>name/length\<close>. The walk of \<^verbatim>\<open>_.get\<close> reads the property \<^verbatim>\<open>length\<close> of the
  string: in both views \<^verbatim>\<open>val()\<close> is 5 and \<^verbatim>\<open>exists()\<close> is true.
\<close>

theorem absent_path_through_string:
  "new_DeltaSnapshot spec_utils () (Some string_event) = Inr string_root \<and>
   pathParts spec_utils (s_childPath (child spec_utils string_root (Some ''name/length''))) =
     [''name'', ''length''] \<and>
   treeAt (s_data string_root) [''name'', ''length''] = None \<and>
   treeAt (s_newData string_root) [''name'', ''length''] = None \<and>
   val spec_utils (child spec_utils (previous spec_utils string_root) (Some ''name/length'')) =
     JNum 5 \<and>
   exists spec_utils (child spec_utils (previous spec_utils string_root) (Some ''name/length'')) \<and>
   val spec_utils (child spec_utils string_root (Some ''name/length'')) = JNum 5 \<and>
   exists spec_utils (child spec_utils string_root (Some ''name/length''))"
  by code_simp

text \<open>
  C1. The claim: a mapping whose keys are not all integer literals is returned as the
  mapping of its normalized children. The mapping \<^verbatim>\<open>{length: 2, width: 3}\<close> has no
  integer key, but \<^verbatim>\<open>_.forEach\<close> iterates it like an array of length 2, and the
  normalizer returns the array \<^verbatim>\<open>[null, null]\<close>.
\<close>

theorem length_key_iterated_as_array:
  "\<not> list_all integerRegExp (map fst [(''length'', JNum 2), (''width'', JNum 3)]) \<and>
   checkAndConvertToArray (JObj [(''length'', JNum 2), (''width'', JNum 3)]) =
     JArr [Some JNull, Some JNull]"
  by code_simp

text \<open>The three examples of the specification come out as it says.\<close>

lemma normalizer_examples:
  "checkAndConvertToArray (JObj [(''0'', JStr ''a''), (''1'', JStr ''b''), (''2'', JStr ''c'')]) =
     JArr [Some (JStr ''a''), Some (JStr ''b''), Some (JStr ''c'')]"
  "checkAndConvertToArray (JObj [(''0'', JStr ''a''), (''1000'', JStr ''b'')]) =
     JObj [(''0'', JStr ''a''), (''1000'', JStr ''b'')]"
  "checkAndConvertToArray (JObj [(''0'', JStr ''a''), (''x'', JStr ''b'')]) =
     JObj [(''0'', JStr ''a''), (''x'', JStr ''b'')]"
  by code_simp+

end
